theory Spec2Isabelle
  imports Complex_Main "HOL-Library.Sublist"
begin

section \<open>Text: the functions \<open>clean_description\<close> is built from\<close>

text \<open>
  A Python \<open>str\<close> is modelled as a \<open>string\<close>, each \<open>char\<close> standing for the code point
  of the same number (so the model covers code points below 256). \<open>is_space\<close> is the
  class that both the regular expression \<open>\s\<close> and \<open>str.strip()\<close> use on a \<open>str\<close>:
  code points 9 to 13, 28 to 32, 133 and 160 in that range.
\<close>

definition is_space :: "char \<Rightarrow> bool" where
  "is_space c =
     (let n = (of_char c :: nat)
      in (9 \<le> n \<and> n \<le> 13) \<or> (28 \<le> n \<and> n \<le> 32) \<or> n = 133 \<or> n = 160)"

definition newline :: char where
  "newline = CHR 0x0A"

text \<open>
  \<open>re.sub(pattern, repl, text)\<close> for a pattern that never matches the empty string:
  the text is scanned from the left; where the pattern matches, the match is replaced by
  \<open>repl\<close> and the scan goes on after it; elsewhere the character is kept. The matcher
  \<open>m\<close> is the pattern anchored at the start of its argument: it returns what follows the
  match. (The test on the lengths only makes the recursion total; every matcher below
  consumes at least one character.)
\<close>

function re_sub :: "(string \<Rightarrow> string option) \<Rightarrow> string \<Rightarrow> string \<Rightarrow> string" where
  "re_sub m repl [] = []"
| "re_sub m repl (c # cs) =
     (case m (c # cs) of
        None \<Rightarrow> c # re_sub m repl cs
      | Some rest \<Rightarrow>
          if length rest \<le> length cs then repl @ re_sub m repl rest
          else c # re_sub m repl cs)"
  by pat_completeness auto
termination
  by (relation "measure (\<lambda>(m, repl, s). length s)") auto

text \<open>
  The pattern \<open><br\s*/?>\<close> under \<open>re.IGNORECASE\<close>. The classes of \<open>\s\<close>, \<open>/\<close> and
  \<open>>\<close> are disjoint, so the greedy match never has to give a character back.
\<close>

definition match_br :: "string \<Rightarrow> string option" where
  "match_br s =
     (case s of
        c1 # c2 # c3 # rest \<Rightarrow>
          if c1 = CHR ''<'' \<and> (c2 = CHR ''b'' \<or> c2 = CHR ''B'') \<and> (c3 = CHR ''r'' \<or> c3 = CHR ''R'')
          then (let r1 = dropWhile is_space rest;
                    r2 = (case r1 of [] \<Rightarrow> r1 | d # ds \<Rightarrow> if d = CHR ''/'' then ds else r1)
                in case r2 of [] \<Rightarrow> None | e # es \<Rightarrow> if e = CHR ''>'' then Some es else None)
          else None
      | _ \<Rightarrow> None)"

text \<open>
  The pattern \<open><[^>]+>\<close>: a \<open><\<close>, then every character up to the next \<open>>\<close> (at least
  one, a newline or another \<open><\<close> included), then that \<open>>\<close>.
\<close>

definition match_tag :: "string \<Rightarrow> string option" where
  "match_tag s =
     (case s of
        [] \<Rightarrow> None
      | c # cs \<Rightarrow>
          if c = CHR ''<'' \<and> takeWhile (\<lambda>x. x \<noteq> CHR ''>'') cs \<noteq> []
               \<and> dropWhile (\<lambda>x. x \<noteq> CHR ''>'') cs \<noteq> []
          then Some (tl (dropWhile (\<lambda>x. x \<noteq> CHR ''>'') cs))
          else None)"

text \<open>
  The pattern \<open>\s+\n\<close>: the greedy \<open>\s+\<close> takes the whole run of whitespace and gives
  characters back until a newline follows, so the match ends at the last newline of the
  run, and there is one only if that newline is not the first character of the run.
\<close>

definition match_ws_nl :: "string \<Rightarrow> string option" where
  "match_ws_nl s =
     (let run = takeWhile is_space s
      in if newline \<in> set (tl run)
         then Some (rev (takeWhile (\<lambda>x. x \<noteq> newline) (rev run)) @ dropWhile is_space s)
         else None)"

text \<open>The pattern \<open>\n{3,}\<close>: a whole run of three or more newlines.\<close>

definition match_nl3 :: "string \<Rightarrow> string option" where
  "match_nl3 s =
     (if 3 \<le> length (takeWhile (\<lambda>x. x = newline) s)
      then Some (dropWhile (\<lambda>x. x = newline) s)
      else None)"

text \<open>
  \<open>str.replace(old, new)\<close>: the occurrences of \<open>old\<close> are found from the left and do not
  overlap; with an empty \<open>old\<close>, \<open>new\<close> is put before every character and at the end.
\<close>

function replace :: "string \<Rightarrow> string \<Rightarrow> string \<Rightarrow> string" where
  "replace old new [] = (if old = [] then new else [])"
| "replace old new (c # cs) =
     (if old = [] then new @ c # replace old new cs
      else if prefix old (c # cs) then new @ replace old new (drop (length old) (c # cs))
      else c # replace old new cs)"
  by pat_completeness auto
termination
  by (relation "measure (\<lambda>(old, new, s). length s)") auto

text \<open>\<open>str.strip()\<close> with no argument.\<close>

definition strip :: "string \<Rightarrow> string" where
  "strip s = rev (dropWhile is_space (rev (dropWhile is_space s)))"

section \<open>\<open>clean_description\<close>\<close>

definition decode_entities :: "string \<Rightarrow> string" where
  "decode_entities text =
     replace ''&#39;'' [CHR 0x27]
       (replace ''&quot;'' [CHR 0x22]
         (replace ''&gt;'' ''>''
           (replace ''&lt;'' ''<''
             (replace ''&amp;'' ''&'' text))))"

definition clean_description :: "string \<Rightarrow> string" where
  "clean_description text =
     (if text = [] then []
      else
        let text = re_sub match_br [newline] text;
            text = re_sub match_tag [] text;
            text = decode_entities text;
            text = re_sub match_ws_nl [newline] text;
            text = re_sub match_nl3 [newline, newline] text
        in strip text)"

text \<open>
  \<open>re_search m s\<close>: the pattern matches somewhere in \<open>s\<close> (what \<open>re.search\<close> finds).
\<close>

fun re_search :: "(string \<Rightarrow> string option) \<Rightarrow> string \<Rightarrow> bool" where
  "re_search m [] = False"
| "re_search m (c # cs) = (m (c # cs) \<noteq> None \<or> re_search m cs)"

text \<open>A matcher consumes: what it returns is a proper suffix of its argument.\<close>

definition consuming :: "(string \<Rightarrow> string option) \<Rightarrow> bool" where
  "consuming m = (\<forall>t r. m t = Some r \<longrightarrow> (\<exists>pre. pre \<noteq> [] \<and> t = pre @ r))"

section \<open>The response of the service\<close>

text \<open>
  The query fixes the shape of what the service returns, and GraphQL allows a null at
  every level; so each object is a record whose fields are optional. \<open>d.get(k)\<close> does not
  tell an absent key from a null, and \<open>None\<close> stands for both. Where the source does tell
  them apart (\<open>payload.get("media", [])\<close>, \<open>data["data"]["Page"]\<close>) the field is a
  \<open>field\<close>.
\<close>

datatype 'a field = Missing | Null | Value 'a

record title =
  romaji :: "string option"
  english :: "string option"

record tag =
  tag_name :: "string option"

record studio =
  studio_name :: "string option"

record studio_connection =
  nodes :: "studio option list option"

record item =
  media_id :: "int option"
  media_title :: "title option"
  media_description :: "string option"
  media_genres :: "string option list option"
  media_tags :: "tag option list option"
  media_averageScore :: "int option"
  media_studios :: "studio_connection option"

record page_info =
  hasNextPage :: "bool option"

record payload =
  pageInfo :: "page_info option"
  media :: "item option list field"

section \<open>\<open>json.dumps\<close> of a list of strings\<close>

definition dquote :: char where
  "dquote = CHR 0x22"

definition backslash :: char where
  "backslash = CHR 0x5C"

definition hex_digit :: "nat \<Rightarrow> char" where
  "hex_digit n = ''0123456789abcdef'' ! (n mod 16)"

text \<open>
  With \<open>ensure_ascii=False\<close> only the quote, the backslash and the control characters
  below 32 are escaped.
\<close>

definition json_escape :: "char \<Rightarrow> string" where
  "json_escape c =
     (let n = (of_char c :: nat)
      in if c = dquote then [backslash, dquote]
         else if c = backslash then [backslash, backslash]
         else if n = 10 then [backslash, CHR ''n'']
         else if n = 13 then [backslash, CHR ''r'']
         else if n = 9 then [backslash, CHR ''t'']
         else if n = 8 then [backslash, CHR ''b'']
         else if n = 12 then [backslash, CHR ''f'']
         else if n < 32 then [backslash, CHR ''u'', CHR ''0'', CHR ''0'', hex_digit (n div 16), hex_digit n]
         else [c])"

fun join :: "string \<Rightarrow> string list \<Rightarrow> string" where
  "join sep [] = []"
| "join sep [x] = x"
| "join sep (x # y # ys) = x @ sep @ join sep (y # ys)"

definition json_dumps_str :: "string option \<Rightarrow> string" where
  "json_dumps_str v =
     (case v of None \<Rightarrow> ''null'' | Some s \<Rightarrow> dquote # concat (map json_escape s) @ [dquote])"

definition json_dumps :: "string option list \<Rightarrow> string" where
  "json_dumps xs = ''['' @ join '', '' (map json_dumps_str xs) @ '']''"

section \<open>The row built from an item\<close>

record row =
  row_id :: int
  title_romaji :: "string option"
  title_english :: "string option"
  description :: string
  genres :: string
  tags :: string
  average_score :: "int option"
  studios :: string

text \<open>
  \<open>[x.get("name") for x in xs if x and x.get("name")]\<close>: a null entry, an entry
  with no name and an entry whose name is the empty string are left out.
\<close>

definition names :: "('a \<Rightarrow> string option) \<Rightarrow> 'a option list \<Rightarrow> string list" where
  "names name xs =
     concat (map (\<lambda>x. case x of
                         None \<Rightarrow> []
                       | Some t \<Rightarrow> (case name t of
                                     None \<Rightarrow> []
                                   | Some n \<Rightarrow> if n = [] then [] else [n])) xs)"

definition studio_names :: "item \<Rightarrow> string list" where
  "studio_names m =
     names studio_name
       (case media_studios m of
          None \<Rightarrow> []
        | Some sc \<Rightarrow> (case nodes sc of None \<Rightarrow> [] | Some ns \<Rightarrow> ns))"

definition tag_names :: "item \<Rightarrow> string list" where
  "tag_names m = names tag_name (case media_tags m of None \<Rightarrow> [] | Some ts \<Rightarrow> ts)"

text \<open>
  The body of the loop over \<open>media\<close> in \<open>main\<close>: the dictionary \<open>row\<close> is built, and is
  appended to \<open>rows\<close> only if its \<open>id\<close> is not \<open>None\<close>. Building the other fields cannot
  raise, so the row with no identifier, which the source builds and drops, is \<open>None\<close> here.
\<close>

definition map_item :: "item \<Rightarrow> row option" where
  "map_item m =
     (case media_id m of
        None \<Rightarrow> None
      | Some i \<Rightarrow>
          Some \<lparr> row_id = i,
                 title_romaji = (case media_title m of None \<Rightarrow> None | Some t \<Rightarrow> romaji t),
                 title_english = (case media_title m of None \<Rightarrow> None | Some t \<Rightarrow> english t),
                 description =
                   clean_description (case media_description m of None \<Rightarrow> [] | Some d \<Rightarrow> d),
                 genres = json_dumps (case media_genres m of None \<Rightarrow> [] | Some g \<Rightarrow> g),
                 tags = json_dumps (map Some (tag_names m)),
                 average_score = media_averageScore m,
                 studios = json_dumps (map Some (studio_names m)) \<rparr>)"

section \<open>Exceptions\<close>

datatype exn =
    HTTPError "int option"
  | ConnectionError
  | Timeout
  | JSONDecodeError
  | RuntimeError
  | KeyError
  | TypeError
  | AttributeError
  | OverflowError
  | ValueError

text \<open>
  The loop over \<open>media\<close>. An entry of the list that is null has no \<open>get\<close>:
  \<open>AttributeError\<close>.
\<close>

fun build_rows :: "row list \<Rightarrow> item option list \<Rightarrow> exn + row list" where
  "build_rows rows [] = Inr rows"
| "build_rows rows (None # ms) = Inl AttributeError"
| "build_rows rows (Some m # ms) =
     build_rows (case map_item m of None \<Rightarrow> rows | Some r \<Rightarrow> rows @ [r]) ms"

section \<open>The store\<close>

text \<open>
  The table \<open>anime\<close> is the list of its rows, in the order of their insertion. SQLite
  integers have 64 bits: binding a larger Python integer raises \<open>OverflowError\<close>.
\<close>

type_synonym table = "row list"

definition ensure_schema :: "table option \<Rightarrow> table" where
  "ensure_schema t = (case t of None \<Rightarrow> [] | Some tbl \<Rightarrow> tbl)"

definition sqlite_int :: "int \<Rightarrow> bool" where
  "sqlite_int n = (- (2 ^ 63) \<le> n \<and> n < 2 ^ 63)"

definition bindable :: "row \<Rightarrow> bool" where
  "bindable r =
     (sqlite_int (row_id r) \<and> (case average_score r of None \<Rightarrow> True | Some a \<Rightarrow> sqlite_int a))"

text \<open>
  One execution of the \<open>INSERT ... ON CONFLICT(id) DO UPDATE\<close>: a row with this \<open>id\<close>
  has its seven other columns set to the new values; with no such row the new row is
  inserted.
\<close>

definition upsert_row :: "table \<Rightarrow> row \<Rightarrow> table" where
  "upsert_row tbl r =
     (if \<exists>x \<in> set tbl. row_id x = row_id r
      then map (\<lambda>x. if row_id x = row_id r
                     then x \<lparr> title_romaji := title_romaji r,
                              title_english := title_english r,
                              description := description r,
                              genres := genres r,
                              tags := tags r,
                              average_score := average_score r,
                              studios := studios r \<rparr>
                     else x) tbl
      else tbl @ [r])"

text \<open>
  \<open>executemany\<close> runs the statement on the rows in order, inside one transaction, and
  \<open>commit\<close> ends it. When a row cannot be bound the exception leaves \<open>upsert_batch\<close>
  before the commit, and nothing of the batch is kept.
\<close>

fun executemany :: "table \<Rightarrow> row list \<Rightarrow> exn + table" where
  "executemany tbl [] = Inr tbl"
| "executemany tbl (r # rs) =
     (if bindable r then executemany (upsert_row tbl r) rs else Inl OverflowError)"

definition upsert_batch :: "table \<Rightarrow> row list \<Rightarrow> exn + table" where
  "upsert_batch tbl rows = executemany tbl rows"

section \<open>\<open>fetch_page\<close>\<close>

text \<open>
  What the network gives back to one \<open>requests.post\<close>: no connection, no answer within
  the 30 seconds, or a response with its status and body. A body is not JSON, or is an
  object with or without the key \<open>errors\<close> and with what it has at \<open>["data"]["Page"]\<close>.
\<close>

datatype body = NotJson | Json bool "payload field field"

datatype response = ConnectionFailed | TimedOut | HttpResponse int body

definition fetch_page :: "(int \<Rightarrow> int \<Rightarrow> response) \<Rightarrow> int \<Rightarrow> int \<Rightarrow> exn + payload option" where
  "fetch_page post page per_page =
     (case post page per_page of
        ConnectionFailed \<Rightarrow> Inl ConnectionError
      | TimedOut \<Rightarrow> Inl Timeout
      | HttpResponse status b \<Rightarrow>
          if 400 \<le> status \<and> status < 600 then Inl (HTTPError (Some status))
          else (case b of
                  NotJson \<Rightarrow> Inl JSONDecodeError
                | Json errors d \<Rightarrow>
                    if errors then Inl RuntimeError
                    else (case d of
                            Missing \<Rightarrow> Inl KeyError
                          | Null \<Rightarrow> Inl TypeError
                          | Value pg \<Rightarrow>
                              (case pg of
                                 Missing \<Rightarrow> Inl KeyError
                               | Null \<Rightarrow> Inr None
                               | Value p \<Rightarrow> Inr (Some p)))))"

section \<open>\<open>main\<close>\<close>

text \<open>
  The arguments of the command line that the loop reads. \<open>--sleep\<close> is a float; it is
  only handed to \<open>time.sleep\<close>, and is a rational here (a finite float is one; NaN and
  the infinities are not covered).
\<close>

record config =
  pages :: int
  per_page :: int
  sleep :: rat

text \<open>
  The variables of \<open>main\<close>, the table, and two traces of what the run did to the world:
  \<open>fetched\<close> has one entry for each call of \<open>fetch_page\<close>, the page asked for and
  what the call gave; \<open>slept\<close> has the argument of each \<open>time.sleep\<close>. The progress
  bar and the printed lines are left out.
\<close>

record state =
  db :: table
  total_inserted :: int
  has_next :: "bool option"
  page :: int
  fetched :: "(int \<times> (exn + payload option)) list"
  slept :: "rat list"

datatype outcome = Done state | Aborted exn state

definition wait_for :: "int option \<Rightarrow> int" where
  "wait_for status = (if status = Some 429 then 5 else 3)"

text \<open>
  \<open>time.sleep(secs)\<close> with a float, as CPython does it: the exception it raises, or
  \<open>None\<close> when it returns. The seconds are multiplied by \<open>10\<^sup>9\<close> and must then fit a
  signed 64-bit number of nanoseconds, else \<open>OverflowError\<close>; after that test a negative
  length raises \<open>ValueError\<close>. The product is a double, the nearest one to the exact
  product: it reaches \<open>2\<^sup>6\<^sup>3\<close> exactly when the exact product is at least
  \<open>2\<^sup>6\<^sup>3 - 512\<close>, and it is below \<open>- 2\<^sup>6\<^sup>3\<close> exactly when the exact product is below
  \<open>- 2\<^sup>6\<^sup>3 - 1024\<close>. So the longest sleep is a little under 9223372036.9 seconds.
  The retries sleep 5 or 3 seconds, which never raises.
\<close>

definition time_sleep :: "rat \<Rightarrow> exn option" where
  "time_sleep secs =
     (if secs * 10 ^ 9 < - (2 ^ 63) - 1024 \<or> 2 ^ 63 - 512 \<le> secs * 10 ^ 9 then Some OverflowError
      else if secs < 0 then Some ValueError
      else None)"

text \<open>
  The body of the \<open>while\<close> loop after a successful \<open>fetch_page\<close>, up to the
  \<open>time.sleep(args.sleep)\<close> that ends it. An exception comes with the state it leaves
  behind: what was committed stays committed. \<open>has_next\<close> is only ever tested for truth,
  and both an absent and a null \<open>hasNextPage\<close> are false.
\<close>

definition page_body :: "config \<Rightarrow> payload option \<Rightarrow> state \<Rightarrow> (exn \<times> state) + state" where
  "page_body cfg pl st =
     (case pl of
        None \<Rightarrow> Inl (AttributeError, st)
      | Some p \<Rightarrow>
          (case (case media p of
                   Missing \<Rightarrow> build_rows [] []
                 | Null \<Rightarrow> Inl TypeError
                 | Value ms \<Rightarrow> build_rows [] ms) of
             Inl e \<Rightarrow> Inl (e, st)
           | Inr rows \<Rightarrow>
               (case (if rows \<noteq> []
                      then (case upsert_batch (db st) rows of
                              Inl e \<Rightarrow> Inl e
                            | Inr tbl \<Rightarrow>
                                Inr (st \<lparr> db := tbl,
                                          total_inserted := total_inserted st + int (length rows) \<rparr>))
                      else Inr st) of
                  Inl e \<Rightarrow> Inl (e, st)
                | Inr st1 \<Rightarrow>
                    (let st2 = st1 \<lparr> has_next :=
                                       (case pageInfo p of
                                          None \<Rightarrow> Some False
                                        | Some info \<Rightarrow> hasNextPage info),
                                     page := page st1 + 1 \<rparr>
                     in case time_sleep (sleep cfg) of
                          Some e \<Rightarrow> Inl (e, st2)
                        | None \<Rightarrow> Inr (st2 \<lparr> slept := slept st2 @ [sleep cfg] \<rparr>)))))"

text \<open>
  The \<open>while\<close> loop. Nothing bounds the number of retries, so the loop may run for ever:
  the first argument is the number of iterations the run is given, and \<open>None\<close> says that
  they did not suffice. \<open>net k\<close> is what the network answers to the \<open>k\<close>-th request of
  the run (counted from 0).
\<close>

fun main_loop :: "nat \<Rightarrow> (nat \<Rightarrow> int \<Rightarrow> int \<Rightarrow> response) \<Rightarrow> config \<Rightarrow> state \<Rightarrow> outcome option" where
  "main_loop 0 net cfg st = None"
| "main_loop (Suc n) net cfg st =
     (if has_next st = Some True \<and> page st \<le> pages cfg
      then (let r = fetch_page (net (length (fetched st))) (page st) (per_page cfg);
                st = st \<lparr> fetched := fetched st @ [(page st, r)] \<rparr>
            in case r of
                 Inl e \<Rightarrow>
                   (case e of
                      HTTPError status \<Rightarrow>
                        main_loop n net cfg (st \<lparr> slept := slept st @ [of_int (wait_for status)] \<rparr>)
                    | _ \<Rightarrow> Some (Aborted e st))
               | Inr pl \<Rightarrow>
                   (case page_body cfg pl st of
                      Inl (e, st') \<Rightarrow> Some (Aborted e st')
                    | Inr st' \<Rightarrow> main_loop n net cfg st'))
      else Some (Done st))"

definition main :: "nat \<Rightarrow> (nat \<Rightarrow> int \<Rightarrow> int \<Rightarrow> response) \<Rightarrow> config \<Rightarrow> table option \<Rightarrow> outcome option" where
  "main n net cfg t =
     main_loop n net cfg
       \<lparr> db = ensure_schema t, total_inserted = 0, has_next = Some True, page = 1,
         fetched = [], slept = [] \<rparr>"

section \<open>Notions used in the statements\<close>

text \<open>
  \<open>continuation p\<close>: the page says that another one follows (\<open>has_next\<close> is truthy
  after it). \<open>page_rows p\<close>: the rows of the items of the page that are objects with an
  identifier, in their order. \<open>processable p\<close>: the loop body gets through the page up
  to its final sleep (\<open>media\<close> is a list or absent, none of its entries is null, and the
  integers of the rows fit SQLite). \<open>ok_response p\<close>: the response with status 200 whose body holds \<open>p\<close> at
  \<open>["data"]["Page"]\<close> and has no \<open>errors\<close>.
\<close>

definition continuation :: "payload \<Rightarrow> bool" where
  "continuation p = (case pageInfo p of None \<Rightarrow> False | Some info \<Rightarrow> hasNextPage info = Some True)"

definition page_rows :: "payload \<Rightarrow> row list" where
  "page_rows p =
     (case media p of
        Value ms \<Rightarrow> concat (map (\<lambda>m. case m of None \<Rightarrow> [] | Some m \<Rightarrow> (case map_item m of None \<Rightarrow> [] | Some r \<Rightarrow> [r])) ms)
      | _ \<Rightarrow> [])"

definition processable :: "payload \<Rightarrow> bool" where
  "processable p =
     (case media p of
        Missing \<Rightarrow> True
      | Null \<Rightarrow> False
      | Value ms \<Rightarrow> None \<notin> set ms \<and> list_all bindable (page_rows p))"

definition ok_response :: "payload \<Rightarrow> response" where
  "ok_response p = HttpResponse 200 (Json False (Value (Value p)))"

text \<open>
  The state after an iteration that processed the page \<open>p\<close>, and after \<open>k\<close> iterations
  that each met an HTTP error, the \<open>j\<close>-th with the status \<open>status j\<close>.
\<close>

definition after_page :: "config \<Rightarrow> payload \<Rightarrow> state \<Rightarrow> state" where
  "after_page cfg p st =
     st \<lparr> db := foldl upsert_row (db st) (page_rows p),
          total_inserted := total_inserted st + int (length (page_rows p)),
          has_next := (case pageInfo p of None \<Rightarrow> Some False | Some info \<Rightarrow> hasNextPage info),
          page := page st + 1,
          fetched := fetched st @ [(page st, Inr (Some p))],
          slept := slept st @ [sleep cfg] \<rparr>"

definition after_retries :: "(nat \<Rightarrow> int) \<Rightarrow> nat \<Rightarrow> state \<Rightarrow> state" where
  "after_retries status k st =
     st \<lparr> fetched := fetched st @ map (\<lambda>j. (page st, Inl (HTTPError (Some (status j))))) [0..<k],
          slept := slept st @ map (\<lambda>j. of_int (wait_for (Some (status j)))) [0..<k] \<rparr>"

text \<open>
  \<open>trailing_space s\<close>: somewhere in \<open>s\<close> a whitespace character other than a newline
  stands directly before a newline.
\<close>

fun trailing_space :: "string \<Rightarrow> bool" where
  "trailing_space (c # d # cs) = ((is_space c \<and> c \<noteq> newline \<and> d = newline) \<or> trailing_space (d # cs))"
| "trailing_space cs = False"

text \<open>
  \<open>squeeze s\<close>: \<open>s\<close> with every run of newlines replaced by one newline. Two texts
  with the same \<open>squeeze\<close> differ at most in the lengths of their runs of newlines.
\<close>

fun squeeze :: "string \<Rightarrow> string" where
  "squeeze (c # d # cs) =
     (if c = newline \<and> d = newline then squeeze (d # cs) else c # squeeze (d # cs))"
| "squeeze cs = cs"

text \<open>
  \<open>id_count pl\<close>: the number of items of a fetched page that have an identifier.
  \<open>upsert_attempts\<close>: its sum over the entries of the trace \<open>fetched\<close>.
\<close>

definition id_count :: "payload option \<Rightarrow> nat" where
  "id_count pl =
     (case pl of
        None \<Rightarrow> 0
      | Some p \<Rightarrow>
          (case media p of
             Value ms \<Rightarrow> length (filter (\<lambda>m. case m of None \<Rightarrow> False | Some m \<Rightarrow> media_id m \<noteq> None) ms)
           | _ \<Rightarrow> 0))"

definition upsert_attempts :: "(int \<times> (exn + payload option)) list \<Rightarrow> int" where
  "upsert_attempts entries =
     sum_list (map (\<lambda>(pg, r). case r of Inl e \<Rightarrow> 0 | Inr pl \<Rightarrow> int (id_count pl)) entries)"

section \<open>Inputs of the examples\<close>

text \<open>
  The item \<open>{id: 5, title: {romaji: "X"}, tags: [{name: "A"}, null, {name: null}],
  studios: null}\<close>.
\<close>

definition mapper_example :: item where
  "mapper_example =
     \<lparr> media_id = Some 5,
       media_title = Some \<lparr> romaji = Some ''X'', english = None \<rparr>,
       media_description = None,
       media_genres = None,
       media_tags = Some [Some \<lparr> tag_name = Some ''A'' \<rparr>, None, Some \<lparr> tag_name = None \<rparr>],
       media_averageScore = None,
       media_studios = None \<rparr>"

text \<open>Inputs of \<open>clean_description\<close>.\<close>

definition plain_example :: string where
  "plain_example =
     [CHR '' '', CHR ''a'', CHR '' '', CHR ''<'', CHR '' '', CHR ''b'', newline, CHR ''&'',
      CHR ''c'', CHR 0x09]"

definition trailing_space_example :: string where
  "trailing_space_example = [CHR ''a'', CHR '' '', newline, CHR ''b'']"

definition entity_example :: string where
  "entity_example = ''Tom &amp; Jerry''"

definition paragraph_example :: string where
  "paragraph_example = [CHR ''a'', newline, newline, CHR ''b'']"

text \<open>
  Rows: two for the identifier 7 that differ in every other column, and one for the
  identifier 1.
\<close>

definition row_a :: row where
  "row_a = \<lparr> row_id = 7, title_romaji = Some ''A'', title_english = Some ''A (en)'',
             description = ''first'', genres = ''[]'', tags = ''[]'',
             average_score = Some 80, studios = ''[]'' \<rparr>"

definition row_b :: row where
  "row_b = \<lparr> row_id = 7, title_romaji = Some ''B'', title_english = None,
             description = [], genres = ''[]'', tags = ''[]'',
             average_score = None, studios = ''[]'' \<rparr>"

definition row_c :: row where
  "row_c = \<lparr> row_id = 1, title_romaji = None, title_english = None,
             description = [], genres = ''[]'', tags = ''[]'',
             average_score = Some 50, studios = ''[]'' \<rparr>"

text \<open>
  Runs: the command line defaults, the state at the start of the loop on an empty table, a
  network on which every request times out, and one that answers 429, then 500, and then
  refuses the connection.
\<close>

definition default_config :: config where
  "default_config = \<lparr> pages = 10, per_page = 50, sleep = 1 / 2 \<rparr>"

definition start :: state where
  "start = \<lparr> db = [], total_inserted = 0, has_next = Some True, page = 1, fetched = [], slept = [] \<rparr>"

definition timeout_net :: "nat \<Rightarrow> int \<Rightarrow> int \<Rightarrow> response" where
  "timeout_net k pg pp = TimedOut"

definition flaky_net :: "nat \<Rightarrow> int \<Rightarrow> int \<Rightarrow> response" where
  "flaky_net k pg pp =
     (if k = 0 then HttpResponse 429 NotJson
      else if k = 1 then HttpResponse 500 NotJson
      else ConnectionFailed)"

definition flaky_status :: "nat \<Rightarrow> int" where
  "flaky_status j = (if j = 0 then 429 else 500)"

text \<open>
  Pages: an item with no identifier, the row of \<open>mapper_example\<close>, a page with that item
  that announces a next page, and a last page with both items. Networks: one that always
  answers with the first page, one that answers with the first page for page 1 and with
  the last page otherwise, and one that does the same but answers its second request
  with the status 429.
\<close>

definition no_id_item :: item where
  "no_id_item =
     \<lparr> media_id = None,
       media_title = Some \<lparr> romaji = Some ''Y'', english = None \<rparr>,
       media_description = None,
       media_genres = None,
       media_tags = None,
       media_averageScore = Some 70,
       media_studios = None \<rparr>"

definition example_row :: row where
  "example_row =
     \<lparr> row_id = 5, title_romaji = Some ''X'', title_english = None, description = [],
       genres = ''[]'', tags = [CHR ''['', dquote, CHR ''A'', dquote, CHR '']''],
       average_score = None, studios = ''[]'' \<rparr>"

definition page_one :: payload where
  "page_one = \<lparr> pageInfo = Some \<lparr> hasNextPage = Some True \<rparr>, media = Value [Some mapper_example] \<rparr>"

definition page_two :: payload where
  "page_two =
     \<lparr> pageInfo = Some \<lparr> hasNextPage = Some False \<rparr>,
       media = Value [Some no_id_item, Some mapper_example] \<rparr>"

definition three_pages :: config where
  "three_pages = \<lparr> pages = 3, per_page = 50, sleep = 1 / 2 \<rparr>"

definition always_more_net :: "nat \<Rightarrow> int \<Rightarrow> int \<Rightarrow> response" where
  "always_more_net k pg pp = ok_response page_one"

definition repeat_net :: "nat \<Rightarrow> int \<Rightarrow> int \<Rightarrow> response" where
  "repeat_net k pg pp = ok_response (if pg = 1 then page_one else page_two)"

definition rate_limited_net :: "nat \<Rightarrow> int \<Rightarrow> int \<Rightarrow> response" where
  "rate_limited_net k pg pp =
     (if k = 1 then HttpResponse 429 NotJson
      else ok_response (if pg = 1 then page_one else page_two))"

text \<open>
  A page whose second entry is null, after the item with the identifier 5, and a network
  that answers with it.
\<close>

definition null_entry_page :: payload where
  "null_entry_page =
     \<lparr> pageInfo = Some \<lparr> hasNextPage = Some False \<rparr>,
       media = Value [Some mapper_example, None] \<rparr>"

definition null_entry_net :: "nat \<Rightarrow> int \<Rightarrow> int \<Rightarrow> response" where
  "null_entry_net k pg pp = ok_response null_entry_page"

text \<open>A network that answers the first request with the first page and then refuses the connection.\<close>

definition dropped_net :: "nat \<Rightarrow> int \<Rightarrow> int \<Rightarrow> response" where
  "dropped_net k pg pp = (if k = 0 then ok_response page_one else ConnectionFailed)"

section \<open>Properties of the text functions\<close>

lemmas clean_defs = clean_description_def decode_entities_def match_br_def match_tag_def
  match_ws_nl_def match_nl3_def strip_def is_space_def newline_def

text \<open>
  C2. The specification asks that the entities \<open>&amp;\<close>, \<open>&lt;\<close>, \<open>&gt;\<close>, \<open>&quot;\<close>
  and \<open>&#39;\<close> be decoded without decoding again what the decoding of \<open>&amp;\<close>
  produces, so that \<open>&amp;lt;\<close> becomes \<open>&lt;\<close>. The chain of \<open>replace\<close> calls of
  \<open>clean_description\<close> decodes \<open>&amp;\<close> first and runs the other replacements on the
  result: on the input \<open>&amp;lt;\<close> it returns the character \<open><\<close>.
\<close>

theorem clean_description_double_decodes: "clean_description ''&amp;lt;'' = ''<''"
  by (simp add: clean_defs)

subsection \<open>Substitution where nothing matches\<close>

lemma re_sub_no_match: "\<not> re_search m s \<Longrightarrow> re_sub m repl s = s"
  by (induction s) auto

lemma re_search_append: "re_search m ys \<Longrightarrow> re_search m (xs @ ys)"
  by (induction xs) (auto, (cases ys; simp)?)

lemma replace_absent: "old \<noteq> [] \<Longrightarrow> \<not> sublist old s \<Longrightarrow> replace old new s = s"
proof (induction s)
  case Nil
  then show ?case by simp
next
  case (Cons c cs)
  then show ?case
    by (auto simp: sublist_Cons_right)
qed

subsection \<open>What a match looks like\<close>

lemma takeWhile_dropWhile_nil: "takeWhile P (dropWhile P xs) = []"
  by (induction xs) auto

lemma dropWhile_neq_cons:
  assumes "dropWhile (\<lambda>x. x \<noteq> a) xs \<noteq> []"
  shows "dropWhile (\<lambda>x. x \<noteq> a) xs = a # tl (dropWhile (\<lambda>x. x \<noteq> a) xs)"
proof -
  from assms have "\<not> (hd (dropWhile (\<lambda>x. x \<noteq> a) xs) \<noteq> a)"
    by (rule hd_dropWhile)
  with assms show ?thesis
    by (cases "dropWhile (\<lambda>x. x \<noteq> a) xs") auto
qed

lemma match_tag_SomeD:
  assumes "match_tag s = Some rest"
  shows "\<exists>body. s = CHR ''<'' # body @ CHR ''>'' # rest \<and> body \<noteq> [] \<and> CHR ''>'' \<notin> set body"
proof -
  from assms obtain cs where s: "s = CHR ''<'' # cs"
    and body: "takeWhile (\<lambda>x. x \<noteq> CHR ''>'') cs \<noteq> []"
    and dw: "dropWhile (\<lambda>x. x \<noteq> CHR ''>'') cs \<noteq> []"
    and rest: "rest = tl (dropWhile (\<lambda>x. x \<noteq> CHR ''>'') cs)"
    by (auto simp: match_tag_def split: list.splits if_splits)
  have "cs = takeWhile (\<lambda>x. x \<noteq> CHR ''>'') cs @ dropWhile (\<lambda>x. x \<noteq> CHR ''>'') cs"
    by simp
  also have "dropWhile (\<lambda>x. x \<noteq> CHR ''>'') cs = CHR ''>'' # rest"
    using dropWhile_neq_cons [OF dw] rest by simp
  finally have "cs = takeWhile (\<lambda>x. x \<noteq> CHR ''>'') cs @ CHR ''>'' # rest" .
  moreover have "CHR ''>'' \<notin> set (takeWhile (\<lambda>x. x \<noteq> CHR ''>'') cs)"
    by (auto dest: set_takeWhileD)
  ultimately show ?thesis
    using s body by blast
qed

lemma match_ws_nl_SomeD:
  assumes "match_ws_nl s = Some rest"
  shows "\<exists>pre. s = pre @ newline # rest \<and> pre \<noteq> [] \<and> (\<forall>x\<in>set pre. is_space x)
        \<and> newline \<notin> set (takeWhile is_space rest)"
proof -
  define run where "run = takeWhile is_space s"
  define A where "A = takeWhile (\<lambda>x. x \<noteq> newline) (rev run)"
  define B where "B = tl (dropWhile (\<lambda>x. x \<noteq> newline) (rev run))"
  from assms have nl: "newline \<in> set (tl run)"
    and rest: "rest = rev A @ dropWhile is_space s"
    by (auto simp: match_ws_nl_def run_def A_def Let_def split: if_splits)
  from nl have "newline \<in> set (rev run)"
    by (cases run) auto
  then have "dropWhile (\<lambda>x. x \<noteq> newline) (rev run) \<noteq> []"
    by (simp add: dropWhile_eq_Nil_conv)
  then have "dropWhile (\<lambda>x. x \<noteq> newline) (rev run) = newline # B"
    unfolding B_def by (rule dropWhile_neq_cons)
  then have "rev run = A @ newline # B"
    unfolding A_def by (metis takeWhile_dropWhile_id)
  then have run: "run = rev B @ newline # rev A"
    by (metis rev_rev_ident rev_append rev.simps(2) append.assoc append_Cons append_Nil)
  have A_nl: "newline \<notin> set A"
    unfolding A_def by (auto dest: set_takeWhileD)
  have sp: "\<forall>x\<in>set run. is_space x"
    unfolding run_def by (auto dest: set_takeWhileD)
  have "s = run @ dropWhile is_space s"
    unfolding run_def by simp
  then have s: "s = rev B @ newline # rest"
    using run rest by simp
  have B_ne: "rev B \<noteq> []"
  proof
    assume "rev B = []"
    with run have "tl run = rev A" by simp
    with nl A_nl show False by simp
  qed
  have "\<And>x. x \<in> set (rev A) \<Longrightarrow> is_space x"
    using sp run by simp
  then have "takeWhile is_space (rev A @ dropWhile is_space s)
      = rev A @ takeWhile is_space (dropWhile is_space s)"
    by (rule takeWhile_append2)
  then have "takeWhile is_space rest = rev A"
    by (simp add: rest takeWhile_dropWhile_nil)
  with A_nl have "newline \<notin> set (takeWhile is_space rest)" by simp
  with s B_ne sp run show ?thesis
    by (intro exI [of _ "rev B"]) auto
qed

lemma match_nl3_SomeD:
  assumes "match_nl3 s = Some rest"
  shows "\<exists>pre. s = newline # newline # newline # pre @ rest \<and> (\<forall>x\<in>set pre. x = newline)"
proof -
  define run where "run = takeWhile (\<lambda>x. x = newline) s"
  from assms have len: "3 \<le> length run" and rest: "rest = dropWhile (\<lambda>x. x = newline) s"
    by (auto simp: match_nl3_def run_def split: if_splits)
  have all: "\<forall>x\<in>set run. x = newline"
    unfolding run_def by (auto dest: set_takeWhileD)
  from len obtain a b c pre where run: "run = a # b # c # pre"
    by (cases run; cases "tl run"; cases "tl (tl run)") auto
  have "s = run @ rest"
    unfolding run_def rest by simp
  with run all show ?thesis by auto
qed

lemma match_br_SomeD:
  assumes "match_br s = Some rest"
  shows "\<exists>mid. s = CHR ''<'' # mid @ CHR ''>'' # rest \<and> mid \<noteq> [] \<and> CHR ''>'' \<notin> set mid"
proof -
  from assms obtain c2 c3 r0 where s: "s = CHR ''<'' # c2 # c3 # r0"
    and c2: "c2 = CHR ''b'' \<or> c2 = CHR ''B''" and c3: "c3 = CHR ''r'' \<or> c3 = CHR ''R''"
    and r: "(let r1 = dropWhile is_space r0;
                 r2 = (case r1 of [] \<Rightarrow> r1 | d # ds \<Rightarrow> if d = CHR ''/'' then ds else r1)
             in case r2 of [] \<Rightarrow> None | e # es \<Rightarrow> if e = CHR ''>'' then Some es else None) = Some rest"
    by (auto simp: match_br_def split: list.splits if_splits)
  define ws where "ws = takeWhile is_space r0"
  have r0: "r0 = ws @ dropWhile is_space r0"
    unfolding ws_def by simp
  have ws: "CHR ''>'' \<notin> set ws"
    unfolding ws_def by (auto dest!: set_takeWhileD simp: is_space_def)
  from r have "dropWhile is_space r0 = CHR ''>'' # rest \<or> dropWhile is_space r0 = CHR ''/'' # CHR ''>'' # rest"
    by (auto simp: Let_def split: list.splits if_splits)
  then show ?thesis
  proof
    assume "dropWhile is_space r0 = CHR ''>'' # rest"
    with r0 have "s = CHR ''<'' # (c2 # c3 # ws) @ CHR ''>'' # rest"
      using s by simp
    moreover have "CHR ''>'' \<notin> set (c2 # c3 # ws)"
      using c2 c3 ws by auto
    ultimately show ?thesis by blast
  next
    assume "dropWhile is_space r0 = CHR ''/'' # CHR ''>'' # rest"
    with r0 have "s = CHR ''<'' # (c2 # c3 # ws @ [CHR ''/'']) @ CHR ''>'' # rest"
      using s by simp
    moreover have "CHR ''>'' \<notin> set (c2 # c3 # ws @ [CHR ''/''])"
      using c2 c3 ws by auto
    ultimately show ?thesis by blast
  qed
qed

subsection \<open>Matches and the steps of \<open>clean_description\<close>\<close>

lemma is_space_newline [simp]: "is_space newline"
  by (simp add: is_space_def newline_def)

lemma match_tag_intro:
  assumes "body \<noteq> []" and "CHR ''>'' \<notin> set body"
  shows "match_tag (CHR ''<'' # body @ CHR ''>'' # rest) = Some rest"
proof -
  from assms(2) have "takeWhile (\<lambda>x. x \<noteq> CHR ''>'') (body @ CHR ''>'' # rest) = body"
    by (induction body) auto
  moreover from assms(2) have "dropWhile (\<lambda>x. x \<noteq> CHR ''>'') (body @ CHR ''>'' # rest) = CHR ''>'' # rest"
    by (induction body) auto
  ultimately show ?thesis
    using assms(1) by (simp add: match_tag_def)
qed

lemma match_br_match_tag: "match_br t = Some r \<Longrightarrow> match_tag t = Some r"
  by (auto dest!: match_br_SomeD simp: match_tag_intro)

lemma re_search_br_tag: "re_search match_br s \<Longrightarrow> re_search match_tag s"
  by (induction s) (auto dest: match_br_match_tag)

lemma match_nl3_match_ws_nl: "match_nl3 t = Some r \<Longrightarrow> match_ws_nl t \<noteq> None"
  by (auto dest!: match_nl3_SomeD simp: match_ws_nl_def)

lemma re_search_nl3_ws_nl: "re_search match_nl3 s \<Longrightarrow> re_search match_ws_nl s"
  by (induction s) (auto dest: match_nl3_match_ws_nl)

lemma decode_entities_absent:
  assumes "\<not> sublist ''&amp;'' s" and "\<not> sublist ''&lt;'' s" and "\<not> sublist ''&gt;'' s"
    and "\<not> sublist ''&quot;'' s" and "\<not> sublist ''&#39;'' s"
  shows "decode_entities s = s"
  using assms by (simp add: decode_entities_def replace_absent)

lemma clean_description_no_markup:
  assumes "\<not> re_search match_tag s" and "decode_entities s = s"
  shows "clean_description s =
    strip (re_sub match_nl3 [newline, newline] (re_sub match_ws_nl [newline] s))"
proof (cases "s = []")
  case True
  then show ?thesis by (simp add: clean_description_def strip_def)
next
  case False
  from assms(1) have "\<not> re_search match_br s"
    by (auto dest: re_search_br_tag)
  then have "re_sub match_br [newline] s = s"
    by (rule re_sub_no_match)
  moreover from assms(1) have "re_sub match_tag [] s = s"
    by (rule re_sub_no_match)
  ultimately show ?thesis
    using False assms(2) by (simp add: clean_description_def)
qed

lemma re_sub_skip: "m (c # cs) = None \<Longrightarrow> re_sub m repl (c # cs) = c # re_sub m repl cs"
  by simp

lemma re_sub_match:
  "m (c # cs) = Some rest \<Longrightarrow> length rest \<le> length cs \<Longrightarrow>
     re_sub m repl (c # cs) = repl @ re_sub m repl rest"
  by simp

lemma consuming_length:
  assumes "consuming m" and "m (c # cs) = Some r"
  shows "length r \<le> length cs"
proof -
  from assms obtain pre where "pre \<noteq> []" and "c # cs = pre @ r"
    unfolding consuming_def by blast
  then have "length (c # cs) = length pre + length r" and "0 < length pre"
    by (metis length_append, simp)
  then show ?thesis by (cases pre) auto
qed

lemma consuming_set: "consuming m \<Longrightarrow> m t = Some r \<Longrightarrow> set r \<subseteq> set t"
  unfolding consuming_def by fastforce

lemma re_sub_induct [consumes 1, case_names Nil Skip Match]:
  assumes "consuming m"
    and "P []"
    and "\<And>c cs. m (c # cs) = None \<Longrightarrow> P cs \<Longrightarrow> P (c # cs)"
    and "\<And>c cs rest. m (c # cs) = Some rest \<Longrightarrow> length rest \<le> length cs \<Longrightarrow> P rest \<Longrightarrow> P (c # cs)"
  shows "P s"
proof (induction s rule: length_induct)
  case (1 s)
  show ?case
  proof (cases s)
    case Nil
    with assms(2) show ?thesis by simp
  next
    case (Cons c cs)
    show ?thesis
    proof (cases "m (c # cs)")
      case None
      with 1 Cons assms(3) show ?thesis by simp
    next
      case (Some rest)
      with assms(1) have "length rest \<le> length cs"
        by (rule consuming_length)
      with 1 Cons Some assms(4) show ?thesis by simp
    qed
  qed
qed

lemma consumingI:
  assumes "\<And>t r. m t = Some r \<Longrightarrow> \<exists>pre. pre \<noteq> [] \<and> t = pre @ r"
  shows "consuming m"
  unfolding consuming_def using assms by blast

lemma consuming_br: "consuming match_br"
proof (rule consumingI)
  fix t r
  assume "match_br t = Some r"
  then obtain mid where "t = (CHR ''<'' # mid @ [CHR ''>'']) @ r"
    by (auto dest!: match_br_SomeD)
  then show "\<exists>pre. pre \<noteq> [] \<and> t = pre @ r"
    by blast
qed

lemma consuming_tag: "consuming match_tag"
proof (rule consumingI)
  fix t r
  assume "match_tag t = Some r"
  then obtain mid where "t = (CHR ''<'' # mid @ [CHR ''>'']) @ r"
    by (auto dest!: match_tag_SomeD)
  then show "\<exists>pre. pre \<noteq> [] \<and> t = pre @ r"
    by blast
qed

lemma consuming_ws_nl: "consuming match_ws_nl"
proof (rule consumingI)
  fix t r
  assume "match_ws_nl t = Some r"
  then obtain pre where "t = (pre @ [newline]) @ r"
    by (auto dest!: match_ws_nl_SomeD)
  moreover have "pre @ [newline] \<noteq> []" by simp
  ultimately show "\<exists>pre. pre \<noteq> [] \<and> t = pre @ r"
    by blast
qed

lemma consuming_nl3: "consuming match_nl3"
proof (rule consumingI)
  fix t r
  assume "match_nl3 t = Some r"
  then obtain pre where "t = (newline # newline # newline # pre) @ r"
    by (auto dest!: match_nl3_SomeD)
  then show "\<exists>pre. pre \<noteq> [] \<and> t = pre @ r"
    by blast
qed

lemma set_re_sub:
  assumes "consuming m"
  shows "set (re_sub m repl s) \<subseteq> set s \<union> set repl"
  using assms
proof (induction s rule: re_sub_induct)
  case Nil
  then show ?case by simp
next
  case (Skip c cs)
  then show ?case by auto
next
  case (Match c cs rest)
  from assms Match(1) have "set rest \<subseteq> set (c # cs)"
    by (rule consuming_set)
  with Match show ?case by auto
qed

lemma match_tag_None_iff:
  "match_tag (c # cs) = None \<longleftrightarrow>
     c \<noteq> CHR ''<'' \<or> cs = [] \<or> hd cs = CHR ''>'' \<or> CHR ''>'' \<notin> set cs"
  by (cases cs) (auto simp: match_tag_def dropWhile_eq_Nil_conv)

lemma match_ws_nl_None_iff:
  "match_ws_nl (c # cs) = None \<longleftrightarrow> \<not> is_space c \<or> newline \<notin> set (takeWhile is_space cs)"
  by (simp add: match_ws_nl_def)

lemma not_space_gt [simp]: "\<not> is_space (CHR ''>'')"
  by (simp add: is_space_def)

lemma newline_neq [simp]: "newline \<noteq> CHR ''<''" "newline \<noteq> CHR ''>''" "newline \<noteq> CHR ''&''"
  by (simp_all add: newline_def)

text \<open>Removing the tags leaves no tag.\<close>

lemma re_search_tag_re_sub_tag: "\<not> re_search match_tag (re_sub match_tag [] s)"
  using consuming_tag
proof (induction s rule: re_sub_induct)
  case Nil
  then show ?case by simp
next
  case (Skip c cs)
  let ?u = "re_sub match_tag [] cs"
  from Skip(1) have "c \<noteq> CHR ''<'' \<or> cs = [] \<or> hd cs = CHR ''>'' \<or> CHR ''>'' \<notin> set cs"
    by (simp add: match_tag_None_iff)
  moreover have "?u = [] \<or> hd ?u = CHR ''>''" if "cs \<noteq> []" "hd cs = CHR ''>''"
    using that by (cases cs) (auto simp: match_tag_def)
  moreover have "CHR ''>'' \<notin> set ?u" if "CHR ''>'' \<notin> set cs"
    using that set_re_sub [OF consuming_tag, of "[]" cs] by auto
  ultimately have "match_tag (c # ?u) = None"
    unfolding match_tag_None_iff by fastforce
  with Skip show ?case by simp
next
  case (Match c cs rest)
  then show ?case by simp
qed

text \<open>Collapsing the whitespace before newlines leaves no tag where there was none.\<close>

lemma re_search_tag_re_sub_ws_nl:
  "\<not> re_search match_tag s \<Longrightarrow> \<not> re_search match_tag (re_sub match_ws_nl [newline] s)"
  using consuming_ws_nl
proof (induction s rule: re_sub_induct)
  case Nil
  then show ?case by simp
next
  case (Skip c cs)
  let ?u = "re_sub match_ws_nl [newline] cs"
  from Skip(3) have none: "match_tag (c # cs) = None" and cs: "\<not> re_search match_tag cs"
    by simp_all
  from none have "c \<noteq> CHR ''<'' \<or> cs = [] \<or> hd cs = CHR ''>'' \<or> CHR ''>'' \<notin> set cs"
    by (simp add: match_tag_None_iff)
  moreover have "?u = [] \<or> hd ?u = CHR ''>''" if "cs \<noteq> []" "hd cs = CHR ''>''"
    using that by (cases cs) (auto simp: match_ws_nl_def)
  moreover have "CHR ''>'' \<notin> set ?u" if "CHR ''>'' \<notin> set cs"
    using that set_re_sub [OF consuming_ws_nl, of "[newline]" cs] by (auto simp: newline_def)
  ultimately have "match_tag (c # ?u) = None"
    unfolding match_tag_None_iff by fastforce
  with Skip cs show ?case by simp
next
  case (Match c cs rest)
  from Match(1) obtain pre where "c # cs = pre @ newline # rest"
    by (auto dest!: match_ws_nl_SomeD)
  with Match(4) have "\<not> re_search match_tag rest"
    by (metis re_search_append append.assoc append_Cons append_Nil)
  with Match(3) have "\<not> re_search match_tag (re_sub match_ws_nl [newline] rest)"
    by simp
  with Match(1,2) show ?case
    by (simp add: match_tag_None_iff)
qed

text \<open>After the collapse no whitespace is left before a newline.\<close>

lemma takeWhile_space_re_sub_ws_nl:
  "newline \<notin> set (takeWhile is_space cs) \<Longrightarrow>
     takeWhile is_space (re_sub match_ws_nl [newline] cs) = takeWhile is_space cs"
proof (induction cs)
  case Nil
  then show ?case by simp
next
  case (Cons d ds)
  show ?case
  proof (cases "is_space d")
    case False
    then show ?thesis by (simp add: match_ws_nl_def)
  next
    case True
    with Cons.prems have "newline \<notin> set (takeWhile is_space ds)"
      by simp
    with Cons.IH True show ?thesis
      by (simp add: match_ws_nl_def)
  qed
qed

lemma re_search_ws_nl_re_sub_ws_nl: "\<not> re_search match_ws_nl (re_sub match_ws_nl [newline] s)"
  using consuming_ws_nl
proof (induction s rule: re_sub_induct)
  case Nil
  then show ?case by simp
next
  case (Skip c cs)
  from Skip(1) have "\<not> is_space c \<or> newline \<notin> set (takeWhile is_space cs)"
    by (simp add: match_ws_nl_None_iff)
  then have "match_ws_nl (c # re_sub match_ws_nl [newline] cs) = None"
    unfolding match_ws_nl_None_iff by (auto simp: takeWhile_space_re_sub_ws_nl)
  with Skip show ?case by simp
next
  case (Match c cs rest)
  from Match(1) have "newline \<notin> set (takeWhile is_space rest)"
    by (auto dest!: match_ws_nl_SomeD)
  then have "match_ws_nl (newline # re_sub match_ws_nl [newline] rest) = None"
    unfolding match_ws_nl_None_iff by (simp add: takeWhile_space_re_sub_ws_nl)
  with Match show ?case by simp
qed

lemma strip_infix: "\<exists>pre suf. s = pre @ strip s @ suf"
proof -
  define d where "d = dropWhile is_space s"
  have "s = takeWhile is_space s @ d"
    unfolding d_def by simp
  moreover have "d = rev (dropWhile is_space (rev d)) @ rev (takeWhile is_space (rev d))"
    by (metis rev_append rev_rev_ident takeWhile_dropWhile_id)
  then have "d = strip s @ rev (takeWhile is_space (rev d))"
    by (simp add: strip_def d_def)
  ultimately show ?thesis by metis
qed

lemma set_strip: "set (strip s) \<subseteq> set s"
proof -
  obtain pre suf where "s = pre @ strip s @ suf"
    using strip_infix by blast
  then have "set s = set pre \<union> set (strip s) \<union> set suf"
    by (metis set_append Un_assoc)
  then show ?thesis by blast
qed

lemma dropWhile_rev_dropWhile_rev:
  assumes "xs = [] \<or> \<not> P (hd xs)"
  shows "dropWhile P (rev (dropWhile P (rev xs))) = rev (dropWhile P (rev xs))"
proof (cases xs)
  case Nil
  then show ?thesis by simp
next
  case (Cons x xs')
  with assms have "\<not> P x" by simp
  then have "dropWhile P (rev xs' @ [x]) = dropWhile P (rev xs') @ [x]"
    by (rule dropWhile_append3)
  with Cons \<open>\<not> P x\<close> show ?thesis by simp
qed

lemma strip_strip: "strip (strip s) = strip s"
proof -
  define d where "d = dropWhile is_space s"
  have "d = [] \<or> \<not> is_space (hd d)"
    unfolding d_def using hd_dropWhile [of is_space s] by blast
  then have "dropWhile is_space (rev (dropWhile is_space (rev d))) = rev (dropWhile is_space (rev d))"
    by (rule dropWhile_rev_dropWhile_rev)
  then show ?thesis
    by (simp add: strip_def d_def)
qed

lemma re_search_prefix:
  assumes "\<And>t ys. m t \<noteq> None \<Longrightarrow> m (t @ ys) \<noteq> None"
  shows "re_search m xs \<Longrightarrow> re_search m (xs @ ys)"
proof (induction xs)
  case Nil
  then show ?case by simp
next
  case (Cons x xs)
  then show ?case
    using assms [of "x # xs" ys] by auto
qed

lemma match_tag_extend: "match_tag t \<noteq> None \<Longrightarrow> match_tag (t @ ys) \<noteq> None"
proof -
  assume "match_tag t \<noteq> None"
  then obtain r where "match_tag t = Some r" by blast
  then obtain b where "t = CHR ''<'' # b @ CHR ''>'' # r" "b \<noteq> []" "CHR ''>'' \<notin> set b"
    by (auto dest!: match_tag_SomeD)
  then have "match_tag (t @ ys) = Some (r @ ys)"
    using match_tag_intro [of b "r @ ys"] by simp
  then show ?thesis by simp
qed

lemma match_ws_nl_extend: "match_ws_nl t \<noteq> None \<Longrightarrow> match_ws_nl (t @ ys) \<noteq> None"
proof -
  assume "match_ws_nl t \<noteq> None"
  then have nl: "newline \<in> set (tl (takeWhile is_space t))"
    by (auto simp: match_ws_nl_def Let_def split: if_splits)
  then have ne: "takeWhile is_space t \<noteq> []" by auto
  have "\<exists>zs. takeWhile is_space (t @ ys) = takeWhile is_space t @ zs"
    by (induction t) auto
  then obtain zs where "takeWhile is_space (t @ ys) = takeWhile is_space t @ zs" ..
  with ne have "tl (takeWhile is_space (t @ ys)) = tl (takeWhile is_space t) @ zs"
    by simp
  with nl show ?thesis
    by (simp add: match_ws_nl_def)
qed

lemma re_search_infix:
  assumes "\<And>t ys. m t \<noteq> None \<Longrightarrow> m (t @ ys) \<noteq> None"
    and "\<not> re_search m (pre @ s @ suf)"
  shows "\<not> re_search m s"
proof
  assume "re_search m s"
  then have "re_search m (s @ suf)"
    using assms(1) by (rule re_search_prefix [rotated])
  then have "re_search m (pre @ s @ suf)"
    by (rule re_search_append)
  with assms(2) show False by simp
qed

lemma re_search_tag_strip: "\<not> re_search match_tag s \<Longrightarrow> \<not> re_search match_tag (strip s)"
  using strip_infix [of s] re_search_infix [of match_tag _ "strip s"] match_tag_extend
  by metis

lemma re_search_ws_nl_strip: "\<not> re_search match_ws_nl s \<Longrightarrow> \<not> re_search match_ws_nl (strip s)"
  using strip_infix [of s] re_search_infix [of match_ws_nl _ "strip s"] match_ws_nl_extend
  by metis

lemma decode_entities_no_amp:
  assumes "CHR ''&'' \<notin> set s"
  shows "decode_entities s = s"
proof -
  have "\<not> sublist (CHR ''&'' # e) s" for e
    using assms by (auto dest: set_mono_sublist)
  then show ?thesis
    by (simp add: decode_entities_absent)
qed

lemma clean_description_fixed:
  assumes "\<not> re_search match_tag s" and "decode_entities s = s" and "\<not> re_search match_ws_nl s"
  shows "clean_description s = strip s"
proof -
  from assms(1,2) have "clean_description s =
      strip (re_sub match_nl3 [newline, newline] (re_sub match_ws_nl [newline] s))"
    by (rule clean_description_no_markup)
  moreover from assms(3) have "re_sub match_ws_nl [newline] s = s"
    by (rule re_sub_no_match)
  moreover from assms(3) have "\<not> re_search match_nl3 s"
    by (auto dest: re_search_nl3_ws_nl)
  then have "re_sub match_nl3 [newline, newline] s = s"
    by (rule re_sub_no_match)
  ultimately show ?thesis by simp
qed

subsection \<open>Where a pattern matches\<close>

lemma re_search_iff:
  "re_search m s \<longleftrightarrow> (\<exists>xs t. s = xs @ t \<and> t \<noteq> [] \<and> m t \<noteq> None)"
proof (induction s)
  case Nil
  then show ?case by simp
next
  case (Cons c cs)
  show ?case
  proof
    assume "re_search m (c # cs)"
    then consider "m (c # cs) \<noteq> None" | "re_search m cs" by auto
    then show "\<exists>xs t. c # cs = xs @ t \<and> t \<noteq> [] \<and> m t \<noteq> None"
    proof cases
      case 1
      then have "c # cs = [] @ (c # cs) \<and> c # cs \<noteq> [] \<and> m (c # cs) \<noteq> None" by simp
      then show ?thesis by blast
    next
      case 2
      with Cons.IH obtain xs t where "cs = xs @ t" "t \<noteq> []" "m t \<noteq> None" by blast
      then have "c # cs = (c # xs) @ t \<and> t \<noteq> [] \<and> m t \<noteq> None" by simp
      then show ?thesis by blast
    qed
  next
    assume "\<exists>xs t. c # cs = xs @ t \<and> t \<noteq> [] \<and> m t \<noteq> None"
    then obtain xs t where x: "c # cs = xs @ t" "t \<noteq> []" "m t \<noteq> None" by blast
    show "re_search m (c # cs)"
    proof (cases xs)
      case Nil
      with x have "m (c # cs) \<noteq> None" by simp
      then show ?thesis by simp
    next
      case (Cons a as)
      with x have "cs = as @ t" by simp
      with x Cons.IH have "re_search m cs" by blast
      then show ?thesis by simp
    qed
  qed
qed

text \<open>A tag: a \<open><\<close>, at least one character other than \<open>>\<close>, and a \<open>>\<close>.\<close>

lemma re_search_tag_iff:
  "re_search match_tag s \<longleftrightarrow>
     (\<exists>xs b ys. s = xs @ CHR ''<'' # b @ CHR ''>'' # ys \<and> b \<noteq> [] \<and> CHR ''>'' \<notin> set b)"
proof
  assume "re_search match_tag s"
  then obtain xs t where "s = xs @ t" "match_tag t \<noteq> None"
    unfolding re_search_iff by blast
  then obtain r where "s = xs @ t" "match_tag t = Some r" by blast
  then show "\<exists>xs b ys. s = xs @ CHR ''<'' # b @ CHR ''>'' # ys \<and> b \<noteq> [] \<and> CHR ''>'' \<notin> set b"
    by (auto dest!: match_tag_SomeD)
next
  assume "\<exists>xs b ys. s = xs @ CHR ''<'' # b @ CHR ''>'' # ys \<and> b \<noteq> [] \<and> CHR ''>'' \<notin> set b"
  then obtain xs b ys where s: "s = xs @ CHR ''<'' # b @ CHR ''>'' # ys" "b \<noteq> []" "CHR ''>'' \<notin> set b"
    by blast
  then have "match_tag (CHR ''<'' # b @ CHR ''>'' # ys) \<noteq> None"
    by (simp add: match_tag_intro)
  with s(1) show "re_search match_tag s"
    unfolding re_search_iff by blast
qed

text \<open>A whitespace character directly before a newline.\<close>

lemma re_search_ws_nl_iff:
  "re_search match_ws_nl s \<longleftrightarrow> (\<exists>xs c ys. s = xs @ c # newline # ys \<and> is_space c)"
proof
  assume "re_search match_ws_nl s"
  then obtain xs t where "s = xs @ t" "match_ws_nl t \<noteq> None"
    unfolding re_search_iff by blast
  then obtain r where st: "s = xs @ t" and "match_ws_nl t = Some r" by blast
  then obtain pre where t: "t = pre @ newline # r" "pre \<noteq> []" "\<forall>x\<in>set pre. is_space x"
    by (auto dest!: match_ws_nl_SomeD)
  then have "pre = butlast pre @ [last pre]" "is_space (last pre)"
    by simp_all
  with st t(1) have "s = (xs @ butlast pre) @ last pre # newline # r \<and> is_space (last pre)"
    by (metis append.assoc append_Cons append_Nil)
  then show "\<exists>xs c ys. s = xs @ c # newline # ys \<and> is_space c"
    by blast
next
  assume "\<exists>xs c ys. s = xs @ c # newline # ys \<and> is_space c"
  then obtain xs c ys where s: "s = xs @ c # newline # ys" "is_space c"
    by blast
  then have "match_ws_nl (c # newline # ys) \<noteq> None"
    by (simp add: match_ws_nl_def)
  with s(1) show "re_search match_ws_nl s"
    unfolding re_search_iff by blast
qed

subsection \<open>Text with no markup and no entity\<close>

lemma trailing_space_iff:
  "trailing_space s \<longleftrightarrow> (\<exists>xs c ys. s = xs @ c # newline # ys \<and> is_space c \<and> c \<noteq> newline)"
proof (induction s rule: trailing_space.induct)
  case (1 c d cs)
  show ?case
  proof
    assume "trailing_space (c # d # cs)"
    then consider "is_space c \<and> c \<noteq> newline \<and> d = newline" | "trailing_space (d # cs)"
      by auto
    then show "\<exists>xs c' ys. c # d # cs = xs @ c' # newline # ys \<and> is_space c' \<and> c' \<noteq> newline"
    proof cases
      case 1
      then have "c # d # cs = [] @ c # newline # cs \<and> is_space c \<and> c \<noteq> newline" by simp
      then show ?thesis by blast
    next
      case 2
      with "1.IH" obtain xs c' ys where "d # cs = xs @ c' # newline # ys" "is_space c'" "c' \<noteq> newline"
        by blast
      then have "c # d # cs = (c # xs) @ c' # newline # ys \<and> is_space c' \<and> c' \<noteq> newline" by simp
      then show ?thesis by blast
    qed
  next
    assume "\<exists>xs c' ys. c # d # cs = xs @ c' # newline # ys \<and> is_space c' \<and> c' \<noteq> newline"
    then obtain xs c' ys where x: "c # d # cs = xs @ c' # newline # ys" "is_space c'" "c' \<noteq> newline"
      by blast
    show "trailing_space (c # d # cs)"
    proof (cases xs)
      case Nil
      with x show ?thesis by simp
    next
      case (Cons a as)
      with x have "d # cs = as @ c' # newline # ys" by simp
      with x(2,3) "1.IH" have "trailing_space (d # cs)" by blast
      then show ?thesis by simp
    qed
  qed
qed (auto simp: Cons_eq_append_conv)

lemma re_search_ws_nl_cases:
  "re_search match_ws_nl s \<longleftrightarrow> trailing_space s \<or> sublist [newline, newline] s"
proof -
  have "sublist [newline, newline] s \<longleftrightarrow> (\<exists>xs ys. s = xs @ newline # newline # ys)"
    by (simp add: sublist_def)
  then show ?thesis
    unfolding re_search_ws_nl_iff trailing_space_iff
    by (metis is_space_newline)
qed

text \<open>
  Runs of newlines. The \<open>\s\<close> of the pattern \<open>\s+\n\<close> matches a newline too, so that
  substitution already turns every run of newlines into one newline; the substitution of
  \<open>\n{3,}\<close> that follows it, which would keep two, finds nothing to replace. A blank
  line between two paragraphs is lost.
\<close>

lemma re_sub_nl3_dead:
  "re_sub match_nl3 repl (re_sub match_ws_nl [newline] s) = re_sub match_ws_nl [newline] s"
proof -
  have "\<not> re_search match_nl3 (re_sub match_ws_nl [newline] s)"
    using re_search_ws_nl_re_sub_ws_nl by (auto dest: re_search_nl3_ws_nl)
  then show ?thesis by (rule re_sub_no_match)
qed

lemma clean_description_newline_run:
  "clean_description paragraph_example = [CHR ''a'', newline, CHR ''b'']"
  by (simp add: paragraph_example_def clean_defs)

text \<open>
  On a text with no whitespace other than newlines before a newline, the substitution of
  \<open>\s+\n\<close> is \<open>squeeze\<close>, and \<open>squeeze\<close> commutes with \<open>strip\<close>.
\<close>

lemma squeeze_Cons: "\<exists>ys. squeeze (d # cs) = d # ys"
proof (induction cs arbitrary: d)
  case Nil
  then show ?case by simp
next
  case (Cons e cs)
  from Cons [of e] obtain ys where "squeeze (e # cs) = e # ys" by blast
  then show ?case by auto
qed

lemma squeeze_Cons_keep:
  "cs = [] \<or> hd cs \<noteq> newline \<or> c \<noteq> newline \<Longrightarrow> squeeze (c # cs) = c # squeeze cs"
  by (cases cs) auto

lemma squeeze_Cons_drop:
  "squeeze (newline # newline # cs) = squeeze (newline # cs)"
  by simp

lemma squeeze_squeeze: "squeeze (squeeze s) = squeeze s"
proof (induction s rule: squeeze.induct)
  case (1 c d cs)
  obtain ys where ys: "squeeze (d # cs) = d # ys"
    using squeeze_Cons by blast
  show ?case
  proof (cases "c = newline \<and> d = newline")
    case True
    with 1 show ?thesis by simp
  next
    case False
    with 1 have IH: "squeeze (squeeze (d # cs)) = squeeze (d # cs)" by simp
    from False have "squeeze (c # d # cs) = c # squeeze (d # cs)" by simp
    moreover from False ys have "squeeze (c # squeeze (d # cs)) = c # squeeze (squeeze (d # cs))"
      by simp
    ultimately show ?thesis using IH by simp
  qed
qed simp_all

lemma squeeze_no_run: "\<not> sublist [newline, newline] s \<Longrightarrow> squeeze s = s"
proof (induction s rule: squeeze.induct)
  case (1 c d cs)
  from "1.prems" have "\<not> (c = newline \<and> d = newline)"
    by (auto simp: sublist_Cons_right)
  moreover from "1.prems" have "\<not> sublist [newline, newline] (d # cs)"
    by (auto simp: sublist_Cons_right)
  ultimately show ?case using "1.IH" by (cases "c = newline") auto
qed simp_all

lemma dropWhile_space_squeeze:
  "dropWhile is_space (squeeze s) = squeeze (dropWhile is_space s)"
proof (induction s rule: squeeze.induct)
  case (1 c d cs)
  show ?case
  proof (cases "c = newline \<and> d = newline")
    case True
    with 1 show ?thesis by simp
  next
    case False
    with 1 have IH: "dropWhile is_space (squeeze (d # cs)) = squeeze (dropWhile is_space (d # cs))"
      by simp
    from False have sq: "squeeze (c # d # cs) = c # squeeze (d # cs)" by simp
    show ?thesis
    proof (cases "is_space c")
      case True
      with sq IH show ?thesis by simp
    next
      case False
      with sq show ?thesis by simp
    qed
  qed
qed simp_all

lemma squeeze_snoc:
  "squeeze (xs @ [c]) =
     (if xs \<noteq> [] \<and> last xs = newline \<and> c = newline then squeeze xs else squeeze xs @ [c])"
proof (induction xs rule: squeeze.induct)
  case (1 a b cs)
  then have IH: "squeeze ((b # cs) @ [c]) =
      (if last (b # cs) = newline \<and> c = newline then squeeze (b # cs)
       else squeeze (b # cs) @ [c])"
    by (cases "a = newline \<and> b = newline") simp_all
  have "squeeze ((a # b # cs) @ [c]) =
      (if a = newline \<and> b = newline then squeeze ((b # cs) @ [c])
       else a # squeeze ((b # cs) @ [c]))"
    by simp
  also have "\<dots> =
      (if last (b # cs) = newline \<and> c = newline then squeeze (a # b # cs)
       else squeeze (a # b # cs) @ [c])"
    unfolding IH by simp
  finally show ?case by simp
qed auto

lemma squeeze_rev: "squeeze (rev s) = rev (squeeze s)"
proof (induction s)
  case Nil
  then show ?case by simp
next
  case (Cons c s)
  show ?case
  proof (cases s)
    case Nil
    then show ?thesis by simp
  next
    case (Cons d cs)
    with Cons.IH have IH: "squeeze (rev (d # cs)) = rev (squeeze (d # cs))" by simp
    have "last (rev (d # cs)) = d" by simp
    then have "squeeze (rev (d # cs) @ [c]) =
        (if d = newline \<and> c = newline then squeeze (rev (d # cs)) else squeeze (rev (d # cs)) @ [c])"
      by (simp add: squeeze_snoc del: rev.simps)
    with IH Cons show ?thesis by auto
  qed
qed

lemma strip_squeeze: "strip (squeeze s) = squeeze (strip s)"
proof -
  have "strip (squeeze s) = rev (dropWhile is_space (rev (squeeze (dropWhile is_space s))))"
    by (simp add: strip_def dropWhile_space_squeeze)
  also have "\<dots> = rev (dropWhile is_space (squeeze (rev (dropWhile is_space s))))"
    by (simp add: squeeze_rev)
  also have "\<dots> = rev (squeeze (dropWhile is_space (rev (dropWhile is_space s))))"
    by (simp add: dropWhile_space_squeeze)
  also have "\<dots> = squeeze (strip s)"
    by (simp add: squeeze_rev strip_def)
  finally show ?thesis .
qed

lemma trailing_space_Cons: "trailing_space cs \<Longrightarrow> trailing_space (c # cs)"
  by (cases cs) auto

lemma trailing_space_append: "trailing_space ys \<Longrightarrow> trailing_space (xs @ ys)"
  by (induction xs) (auto intro: trailing_space_Cons)

lemma newlines_before_newline:
  assumes "\<not> trailing_space (pre @ newline # rest)" and "\<forall>x \<in> set pre. is_space x"
  shows "\<forall>x \<in> set pre. x = newline"
  using assms
proof (induction pre arbitrary: rest rule: rev_induct)
  case Nil
  then show ?case by simp
next
  case (snoc x pre)
  have x: "x = newline"
  proof (rule ccontr)
    assume "x \<noteq> newline"
    with snoc.prems(2) have "(pre @ [x]) @ newline # rest = pre @ x # newline # rest
        \<and> is_space x \<and> x \<noteq> newline"
      by simp
    then have "trailing_space ((pre @ [x]) @ newline # rest)"
      unfolding trailing_space_iff by blast
    with snoc.prems(1) show False by simp
  qed
  with snoc.prems have "\<not> trailing_space (pre @ newline # (newline # rest))"
    and "\<forall>x \<in> set pre. is_space x"
    by simp_all
  then have "\<forall>x \<in> set pre. x = newline"
    by (rule snoc.IH)
  with x show ?case by simp
qed

lemma squeeze_newlines:
  "\<forall>x \<in> set pre. x = newline \<Longrightarrow> squeeze (pre @ newline # rest) = squeeze (newline # rest)"
proof (induction pre)
  case Nil
  then show ?case by simp
next
  case (Cons x pre)
  then have x: "x = newline" and IH: "squeeze (pre @ newline # rest) = squeeze (newline # rest)"
    by simp_all
  obtain zs where "pre @ newline # rest = newline # zs"
    using Cons.prems by (cases pre) auto
  with x IH show ?case by simp
qed

lemma re_sub_ws_nl_squeeze:
  "\<not> trailing_space s \<Longrightarrow> re_sub match_ws_nl [newline] s = squeeze s"
  using consuming_ws_nl
proof (induction s rule: re_sub_induct)
  case Nil
  then show ?case by simp
next
  case (Skip c cs)
  from Skip(3) have "\<not> trailing_space cs"
    by (auto dest: trailing_space_Cons)
  with Skip(2) have IH: "re_sub match_ws_nl [newline] cs = squeeze cs" by simp
  have "cs = [] \<or> hd cs \<noteq> newline \<or> c \<noteq> newline"
  proof (rule ccontr)
    assume "\<not> (cs = [] \<or> hd cs \<noteq> newline \<or> c \<noteq> newline)"
    then obtain cs' where "c = newline" "cs = newline # cs'"
      by (cases cs) auto
    then have "match_ws_nl (c # cs) \<noteq> None"
      by (simp add: match_ws_nl_def)
    with Skip(1) show False by simp
  qed
  then have "squeeze (c # cs) = c # squeeze cs"
    by (rule squeeze_Cons_keep)
  with Skip(1) IH show ?case by simp
next
  case (Match c cs rest)
  from Match(1) obtain pre where s: "c # cs = pre @ newline # rest" and "pre \<noteq> []"
    and sp: "\<forall>x\<in>set pre. is_space x" and nl: "newline \<notin> set (takeWhile is_space rest)"
    by (auto dest!: match_ws_nl_SomeD)
  from Match(4) s have nt: "\<not> trailing_space (pre @ newline # rest)" by simp
  then have "\<not> trailing_space rest"
    using trailing_space_append [of rest "pre @ [newline]"] by auto
  with Match(3) have IH: "re_sub match_ws_nl [newline] rest = squeeze rest" by simp
  from nt sp have "\<forall>x \<in> set pre. x = newline"
    by (rule newlines_before_newline)
  then have "squeeze (pre @ newline # rest) = squeeze (newline # rest)"
    by (rule squeeze_newlines)
  moreover from nl have "rest = [] \<or> hd rest \<noteq> newline \<or> newline \<noteq> newline"
    by (cases rest) auto
  then have "squeeze (newline # rest) = newline # squeeze rest"
    by (rule squeeze_Cons_keep)
  ultimately have "squeeze (c # cs) = newline # squeeze rest"
    using s by simp
  with Match(1,2) IH show ?case by simp
qed

lemma clean_description_squeeze:
  assumes "\<not> re_search match_tag s" and "decode_entities s = s" and "\<not> trailing_space s"
  shows "clean_description s = strip (squeeze s)"
proof -
  from assms(1,2) have "clean_description s =
      strip (re_sub match_nl3 [newline, newline] (re_sub match_ws_nl [newline] s))"
    by (rule clean_description_no_markup)
  then have "clean_description s = strip (re_sub match_ws_nl [newline] s)"
    by (simp only: re_sub_nl3_dead)
  then show ?thesis
    using re_sub_ws_nl_squeeze [OF assms(3)] by simp
qed




subsection \<open>Idempotence\<close>

lemma re_search_ws_nl_clean_description: "\<not> re_search match_ws_nl (clean_description s)"
proof (cases "s = []")
  case True
  then show ?thesis by (simp add: clean_description_def)
next
  case False
  define t where "t = re_sub match_ws_nl [newline]
    (decode_entities (re_sub match_tag [] (re_sub match_br [newline] s)))"
  have ws: "\<not> re_search match_ws_nl t"
    unfolding t_def by (rule re_search_ws_nl_re_sub_ws_nl)
  then have "\<not> re_search match_nl3 t"
    by (auto dest: re_search_nl3_ws_nl)
  then have "re_sub match_nl3 [newline, newline] t = t"
    by (rule re_sub_no_match)
  with False have "clean_description s = strip t"
    by (simp add: clean_description_def t_def)
  with ws show ?thesis
    by (simp add: re_search_ws_nl_strip)
qed

lemma strip_clean_description: "strip (clean_description s) = clean_description s"
  by (simp add: clean_description_def strip_strip Let_def) (simp add: strip_def)

text \<open>
  C3, as the code has it. Cleaning the result again changes nothing, whenever the result
  has nothing left to decode (decoding the entities leaves it as it is, which is so when
  none of the five entities occurs in it, \<open>decode_entities_absent\<close>) and has no tag.
\<close>

theorem clean_description_idempotent:
  assumes "decode_entities (clean_description s) = clean_description s"
    and "\<not> re_search match_tag (clean_description s)"
  shows "clean_description (clean_description s) = clean_description s"
proof -
  have "clean_description (clean_description s) = strip (clean_description s)"
    using assms(2,1) re_search_ws_nl_clean_description by (rule clean_description_fixed)
  then show ?thesis
    by (simp add: strip_clean_description)
qed

theorem clean_description_idempotent_witness:
  "clean_description entity_example = ''Tom & Jerry'' \<and>
   decode_entities (clean_description entity_example) = clean_description entity_example \<and>
   \<not> re_search match_tag (clean_description entity_example) \<and>
   clean_description (clean_description entity_example) = clean_description entity_example"
proof -
  have 0: "clean_description entity_example = ''Tom & Jerry''"
    by (simp add: entity_example_def clean_defs)
  have 1: "decode_entities (clean_description entity_example) = clean_description entity_example"
    unfolding 0 by (simp add: decode_entities_def)
  have 2: "\<not> re_search match_tag (clean_description entity_example)"
    unfolding 0 by (simp add: match_tag_def)
  from clean_description_idempotent [OF 1 2] 0 1 2 show ?thesis
    by simp
qed

text \<open>In particular this is so for every text with no ampersand.\<close>

lemma clean_description_idempotent_no_amp:
  assumes "CHR ''&'' \<notin> set s"
  shows "clean_description (clean_description s) = clean_description s"
proof (cases "s = []")
  case True
  then show ?thesis by (simp add: clean_description_def)
next
  case False
  define t1 where "t1 = re_sub match_br [newline] s"
  define t2 where "t2 = re_sub match_tag [] t1"
  define t4 where "t4 = re_sub match_ws_nl [newline] t2"
  have "set t1 \<subseteq> set s \<union> {newline}"
    unfolding t1_def using set_re_sub [OF consuming_br, of "[newline]" s] by simp
  moreover have "set t2 \<subseteq> set t1"
    unfolding t2_def using set_re_sub [OF consuming_tag, of "[]" t1] by simp
  ultimately have amp2: "CHR ''&'' \<notin> set t2"
    using assms by (auto simp: newline_def)
  then have dec: "decode_entities t2 = t2"
    by (rule decode_entities_no_amp)
  have "set t4 \<subseteq> set t2 \<union> {newline}"
    unfolding t4_def using set_re_sub [OF consuming_ws_nl, of "[newline]" t2] by simp
  with amp2 have amp4: "CHR ''&'' \<notin> set t4"
    by (auto simp: newline_def)
  have tag2: "\<not> re_search match_tag t2"
    unfolding t2_def by (rule re_search_tag_re_sub_tag)
  then have tag4: "\<not> re_search match_tag t4"
    unfolding t4_def by (rule re_search_tag_re_sub_ws_nl)
  have ws4: "\<not> re_search match_ws_nl t4"
    unfolding t4_def by (rule re_search_ws_nl_re_sub_ws_nl)
  then have "\<not> re_search match_nl3 t4"
    by (auto dest: re_search_nl3_ws_nl)
  then have "re_sub match_nl3 [newline, newline] t4 = t4"
    by (rule re_sub_no_match)
  with False dec have out: "clean_description s = strip t4"
    by (simp add: clean_description_def t1_def t2_def t4_def)
  have "CHR ''&'' \<notin> set (strip t4)"
    using amp4 set_strip [of t4] by blast
  then have "decode_entities (strip t4) = strip t4"
    by (rule decode_entities_no_amp)
  moreover from tag4 have "\<not> re_search match_tag (strip t4)"
    by (rule re_search_tag_strip)
  moreover from ws4 have "\<not> re_search match_ws_nl (strip t4)"
    by (rule re_search_ws_nl_strip)
  ultimately have "clean_description (strip t4) = strip (strip t4)"
    by (intro clean_description_fixed)
  then show ?thesis
    by (simp add: out strip_strip)
qed

text \<open>
  C3, as the specification states it, fails: decoding \<open>&amp;amp;\<close> gives \<open>&amp;\<close>, and
  decoding that gives \<open>&\<close>.
\<close>

theorem clean_description_idempotent_counterexample:
  "clean_description ''&amp;amp;'' = ''&amp;'' \<and>
   clean_description (clean_description ''&amp;amp;'') = ''&''"
  by (simp add: clean_defs)

section \<open>Properties of the mapping\<close>

text \<open>
  C9. The item \<open>{id: 5, title: {romaji: "X"}, tags: [{name: "A"}, null, {name: null}],
  studios: null}\<close> is mapped to a row whose tags are the list with the one name \<open>A\<close>
  (the null entry and the entry with no name are dropped), whose studios are the empty
  list and whose English title is null. The two lists are stored as the JSON texts
  \<open>["A"]\<close> and \<open>[]\<close>.
\<close>

theorem map_item_example:
  "tag_names mapper_example = [''A''] \<and>
   studio_names mapper_example = [] \<and>
   map_item mapper_example =
     Some \<lparr> row_id = 5, title_romaji = Some ''X'', title_english = None, description = [],
            genres = ''[]'', tags = [CHR ''['', dquote, CHR ''A'', dquote, CHR '']''],
            average_score = None, studios = ''[]'' \<rparr>"
  by (simp add: mapper_example_def map_item_def tag_names_def studio_names_def names_def
      json_dumps_def json_dumps_str_def json_escape_def dquote_def backslash_def
      clean_description_def)

section \<open>Properties of the store\<close>

lemma find_snoc:
  "find P (xs @ [x]) = (case find P xs of None \<Rightarrow> (if P x then Some x else None) | Some y \<Rightarrow> Some y)"
  by (induction xs) auto

lemma upsert_row_map:
  assumes "\<exists>x \<in> set tbl. row_id x = row_id r"
  shows "\<exists>f. upsert_row tbl r = map f tbl \<and> (\<forall>y. row_id (f y) = row_id y)
           \<and> (\<forall>y. row_id y = row_id r \<longrightarrow> f y = r) \<and> (\<forall>y. row_id y \<noteq> row_id r \<longrightarrow> f y = y)"
proof -
  define f :: "row \<Rightarrow> row" where "f = (\<lambda>x. if row_id x = row_id r
                     then x \<lparr> title_romaji := title_romaji r,
                              title_english := title_english r,
                              description := description r,
                              genres := genres r,
                              tags := tags r,
                              average_score := average_score r,
                              studios := studios r \<rparr>
                     else x)"
  have "upsert_row tbl r = map f tbl"
    using assms by (simp add: upsert_row_def f_def)
  moreover have "row_id (f y) = row_id y" for y
    by (simp add: f_def)
  moreover have "f y = r" if "row_id y = row_id r" for y
    using that by (simp add: f_def)
  moreover have "f y = y" if "row_id y \<noteq> row_id r" for y
    using that by (simp add: f_def)
  ultimately show ?thesis by blast
qed

lemma row_id_upsert_row:
  "map row_id (upsert_row tbl r) =
     (if row_id r \<in> row_id ` set tbl then map row_id tbl else map row_id tbl @ [row_id r])"
proof (cases "\<exists>x \<in> set tbl. row_id x = row_id r")
  case True
  then obtain f where "upsert_row tbl r = map f tbl" "\<forall>y. row_id (f y) = row_id y"
    using upsert_row_map by blast
  then have "map row_id (upsert_row tbl r) = map row_id tbl"
    by simp
  moreover from True have "row_id r \<in> row_id ` set tbl"
    by (metis imageI)
  ultimately show ?thesis by simp
next
  case False
  then have "row_id r \<notin> row_id ` set tbl"
    by (metis imageE)
  with False show ?thesis
    by (simp add: upsert_row_def)
qed

lemma distinct_upsert_row:
  "distinct (map row_id tbl) \<Longrightarrow> distinct (map row_id (upsert_row tbl r))"
  by (simp add: row_id_upsert_row)

lemma filter_key_single:
  "distinct (map g xs) \<Longrightarrow> x \<in> set xs \<Longrightarrow> filter (\<lambda>y. g y = g x) xs = [x]"
proof (induction xs)
  case Nil
  then show ?case by simp
next
  case (Cons a xs)
  show ?case
  proof (cases "a = x")
    case True
    with Cons.prems have "g x \<notin> g ` set xs" by simp
    then have "\<forall>y\<in>set xs. g y \<noteq> g x" by (auto simp: image_iff)
    then have "filter (\<lambda>y. g y = g x) xs = []" by (simp add: filter_empty_conv)
    with True show ?thesis by simp
  next
    case False
    with Cons.prems have "x \<in> set xs" and "g a \<notin> g ` set xs" and "distinct (map g xs)"
      by simp_all
    then have "g a \<noteq> g x" by (auto simp: image_iff)
    with Cons.IH \<open>x \<in> set xs\<close> \<open>distinct (map g xs)\<close> show ?thesis by simp
  qed
qed

lemma filter_upsert_row:
  assumes "distinct (map row_id tbl)"
  shows "filter (\<lambda>x. row_id x = i) (upsert_row tbl r) =
     (if i = row_id r then [r] else filter (\<lambda>x. row_id x = i) tbl)"
proof (cases "\<exists>x \<in> set tbl. row_id x = row_id r")
  case False
  then have "filter (\<lambda>x. row_id x = row_id r) tbl = []"
    by (simp add: filter_empty_conv)
  with False show ?thesis
    by (auto simp: upsert_row_def)
next
  case True
  then obtain x where x: "x \<in> set tbl" "row_id x = row_id r" by blast
  from True obtain f where up: "upsert_row tbl r = map f tbl"
    and f_id: "\<And>y. row_id (f y) = row_id y"
    and f_r: "\<And>y. row_id y = row_id r \<Longrightarrow> f y = r"
    and f_other: "\<And>y. row_id y \<noteq> row_id r \<Longrightarrow> f y = y"
    using upsert_row_map by blast
  have sel: "filter (\<lambda>x. row_id x = i) (map f tbl) = map f (filter (\<lambda>x. row_id x = i) tbl)"
    by (simp add: filter_map comp_def f_id)
  show ?thesis
  proof (cases "i = row_id r")
    case True
    have "filter (\<lambda>y. row_id y = row_id r) tbl = [x]"
      using filter_key_single [OF assms x(1)] x(2) by simp
    with True sel up f_r [OF x(2)] show ?thesis by simp
  next
    case False
    then have "map f (filter (\<lambda>x. row_id x = i) tbl) = filter (\<lambda>x. row_id x = i) tbl"
      by (intro map_idI) (auto simp: f_other)
    with False sel up show ?thesis by simp
  qed
qed

lemma executemany_last_write_wins:
  assumes "distinct (map row_id tbl)" and "\<forall>r \<in> set rows. bindable r"
  shows "\<exists>tbl'. executemany tbl rows = Inr tbl' \<and> distinct (map row_id tbl') \<and>
     (\<forall>i. filter (\<lambda>x. row_id x = i) tbl' =
        (case find (\<lambda>r. row_id r = i) (rev rows) of
           None \<Rightarrow> filter (\<lambda>x. row_id x = i) tbl
         | Some r \<Rightarrow> [r]))"
  using assms
proof (induction rows arbitrary: tbl)
  case Nil
  then show ?case by simp
next
  case (Cons r rs)
  let ?t1 = "upsert_row tbl r"
  from Cons.prems have d1: "distinct (map row_id ?t1)"
    by (simp add: distinct_upsert_row)
  from Cons.prems have "\<forall>r \<in> set rs. bindable r" and b: "bindable r"
    by simp_all
  with Cons.IH [OF d1] obtain tbl' where t: "executemany ?t1 rs = Inr tbl'"
    and d: "distinct (map row_id tbl')"
    and sel: "\<And>i. filter (\<lambda>x. row_id x = i) tbl' =
        (case find (\<lambda>r. row_id r = i) (rev rs) of
           None \<Rightarrow> filter (\<lambda>x. row_id x = i) ?t1
         | Some r \<Rightarrow> [r])"
    by blast
  have "filter (\<lambda>x. row_id x = i) tbl' =
        (case find (\<lambda>r. row_id r = i) (rev (r # rs)) of
           None \<Rightarrow> filter (\<lambda>x. row_id x = i) tbl
         | Some r \<Rightarrow> [r])" for i
    using Cons.prems(1)
    by (simp add: sel find_snoc filter_upsert_row split: option.splits)
  with t d b show ?case by simp
qed

text \<open>
  C6. The table has one row for each identifier, and a batch whose integers fit SQLite
  keeps it so: the batch is stored, and for every identifier the table then has either
  the last row of the batch with that identifier, and only that one, or, when the batch
  has none, what it had before. So upserting two rows with one identifier (the same row
  twice, or the identifier 7 with the columns A and then with the columns B), in two
  batches, leaves exactly one row for it, equal to the second.
\<close>

theorem upsert_batch_last_write_wins:
  assumes "distinct (map row_id tbl)" and "\<forall>r \<in> set rows. bindable r"
  shows "(\<exists>tbl'. upsert_batch tbl rows = Inr tbl' \<and> distinct (map row_id tbl') \<and>
            (\<forall>i. filter (\<lambda>x. row_id x = i) tbl' =
               (case find (\<lambda>r. row_id r = i) (rev rows) of
                  None \<Rightarrow> filter (\<lambda>x. row_id x = i) tbl
                | Some r \<Rightarrow> [r]))) \<and>
         (\<forall>a b. bindable a \<and> bindable b \<and> row_id a = row_id b \<longrightarrow>
            (\<exists>t1 t2. upsert_batch tbl [a] = Inr t1 \<and> upsert_batch t1 [b] = Inr t2 \<and>
               distinct (map row_id t2) \<and> filter (\<lambda>x. row_id x = row_id b) t2 = [b]))"
proof (intro conjI allI impI)
  show "\<exists>tbl'. upsert_batch tbl rows = Inr tbl' \<and> distinct (map row_id tbl') \<and>
            (\<forall>i. filter (\<lambda>x. row_id x = i) tbl' =
               (case find (\<lambda>r. row_id r = i) (rev rows) of
                  None \<Rightarrow> filter (\<lambda>x. row_id x = i) tbl
                | Some r \<Rightarrow> [r]))"
    unfolding upsert_batch_def using assms by (rule executemany_last_write_wins)
next
  fix a b
  assume ab: "bindable a \<and> bindable b \<and> row_id a = row_id b"
  let ?t1 = "upsert_row tbl a"
  let ?t2 = "upsert_row ?t1 b"
  have d1: "distinct (map row_id ?t1)"
    using assms(1) by (rule distinct_upsert_row)
  then have "distinct (map row_id ?t2)"
    by (rule distinct_upsert_row)
  moreover have "filter (\<lambda>x. row_id x = row_id b) ?t2 = [b]"
    using d1 by (simp add: filter_upsert_row)
  ultimately show "\<exists>t1 t2. upsert_batch tbl [a] = Inr t1 \<and> upsert_batch t1 [b] = Inr t2 \<and>
               distinct (map row_id t2) \<and> filter (\<lambda>x. row_id x = row_id b) t2 = [b]"
    using ab by (simp add: upsert_batch_def)
qed

theorem upsert_batch_last_write_wins_witness:
  "distinct (map row_id [row_c, row_a]) \<and> bindable row_a \<and> bindable row_b \<and>
   upsert_batch [row_c, row_a] [row_b, row_b] = Inr [row_c, row_b] \<and>
   (\<exists>t1 t2. upsert_batch [row_c, row_a] [row_a] = Inr t1 \<and> upsert_batch t1 [row_b] = Inr t2 \<and>
      distinct (map row_id t2) \<and> filter (\<lambda>x. row_id x = 7) t2 = [row_b])"
proof -
  have 1: "distinct (map row_id [row_c, row_a])"
    by (simp add: row_a_def row_c_def)
  have 2: "bindable row_a" "bindable row_b"
    by (simp_all add: bindable_def sqlite_int_def row_a_def row_b_def)
  then have 3: "\<forall>r \<in> set [row_b, row_b]. bindable r"
    by simp
  have 4: "row_id row_a = row_id row_b" "row_id row_b = 7"
    by (simp_all add: row_a_def row_b_def)
  have 5: "upsert_batch [row_c, row_a] [row_b, row_b] = Inr [row_c, row_b]"
    using 2 by (simp add: upsert_batch_def upsert_row_def row_a_def row_b_def row_c_def)
  from upsert_batch_last_write_wins [OF 1 3]
  have "\<forall>a b. bindable a \<and> bindable b \<and> row_id a = row_id b \<longrightarrow>
            (\<exists>t1 t2. upsert_batch [row_c, row_a] [a] = Inr t1 \<and> upsert_batch t1 [b] = Inr t2 \<and>
               distinct (map row_id t2) \<and> filter (\<lambda>x. row_id x = row_id b) t2 = [b])"
    by (rule conjunct2)
  then have "bindable row_a \<and> bindable row_b \<and> row_id row_a = row_id row_b \<longrightarrow>
            (\<exists>t1 t2. upsert_batch [row_c, row_a] [row_a] = Inr t1 \<and> upsert_batch t1 [row_b] = Inr t2 \<and>
               distinct (map row_id t2) \<and> filter (\<lambda>x. row_id x = row_id row_b) t2 = [row_b])"
    by blast
  with 2 4 have "\<exists>t1 t2. upsert_batch [row_c, row_a] [row_a] = Inr t1 \<and> upsert_batch t1 [row_b] = Inr t2 \<and>
               distinct (map row_id t2) \<and> filter (\<lambda>x. row_id x = 7) t2 = [row_b]"
    by simp
  with 1 2 5 show ?thesis
    by simp
qed

section \<open>Properties of the loop\<close>

subsection \<open>One iteration\<close>

lemma fetch_page_simps:
  "post pg pp = ConnectionFailed \<Longrightarrow> fetch_page post pg pp = Inl ConnectionError"
  "post pg pp = TimedOut \<Longrightarrow> fetch_page post pg pp = Inl Timeout"
  "post pg pp = HttpResponse s b \<Longrightarrow> 400 \<le> s \<Longrightarrow> s < 600 \<Longrightarrow>
     fetch_page post pg pp = Inl (HTTPError (Some s))"
  "post pg pp = HttpResponse s (Json True d) \<Longrightarrow> \<not> (400 \<le> s \<and> s < 600) \<Longrightarrow>
     fetch_page post pg pp = Inl RuntimeError"
  "post pg pp = ok_response p \<Longrightarrow> fetch_page post pg pp = Inr (Some p)"
  by (simp_all add: fetch_page_def ok_response_def)

lemma main_loop_done:
  "\<not> (has_next st = Some True \<and> page st \<le> pages cfg) \<Longrightarrow>
     main_loop (Suc n) net cfg st = Some (Done st)"
  by auto

lemma main_loop_retry:
  assumes "has_next st = Some True" and "page st \<le> pages cfg"
    and "fetch_page (net (length (fetched st))) (page st) (per_page cfg) = Inl (HTTPError status)"
  shows "main_loop (Suc n) net cfg st =
     main_loop n net cfg
       (st \<lparr> fetched := fetched st @ [(page st, Inl (HTTPError status))],
             slept := slept st @ [of_int (wait_for status)] \<rparr>)"
  using assms by (simp add: Let_def)

lemma main_loop_abort:
  assumes "has_next st = Some True" and "page st \<le> pages cfg"
    and "fetch_page (net (length (fetched st))) (page st) (per_page cfg) = Inl e"
    and "\<And>status. e \<noteq> HTTPError status"
  shows "main_loop (Suc n) net cfg st =
     Some (Aborted e (st \<lparr> fetched := fetched st @ [(page st, Inl e)] \<rparr>))"
proof (cases e)
  case (HTTPError status)
  with assms(4) show ?thesis by blast
qed (use assms(1-3) in \<open>simp_all add: Let_def\<close>)

lemma main_loop_page:
  assumes "has_next st = Some True" and "page st \<le> pages cfg"
    and "fetch_page (net (length (fetched st))) (page st) (per_page cfg) = Inr pl"
  shows "main_loop (Suc n) net cfg st =
     (case page_body cfg pl (st \<lparr> fetched := fetched st @ [(page st, Inr pl)] \<rparr>) of
        Inl (e, st') \<Rightarrow> Some (Aborted e st')
      | Inr st' \<Rightarrow> main_loop n net cfg st')"
  using assms by (simp add: Let_def)

lemma build_rows_acc:
  "None \<notin> set ms \<Longrightarrow>
     build_rows acc ms = Inr (acc @ concat (map (\<lambda>m. case m of None \<Rightarrow> [] | Some m \<Rightarrow> (case map_item m of None \<Rightarrow> [] | Some r \<Rightarrow> [r])) ms))"
proof (induction ms arbitrary: acc)
  case Nil
  then show ?case by simp
next
  case (Cons m ms)
  then show ?case
    by (cases m) (auto split: option.splits)
qed

lemma build_rows_None:
  "\<not> None \<notin> set ms \<Longrightarrow> build_rows acc ms = Inl AttributeError"
proof (induction ms arbitrary: acc)
  case Nil
  then show ?case by simp
next
  case (Cons m ms)
  then show ?case
    by (cases m) auto
qed

lemma page_body_ok:
  assumes "media p \<noteq> Null" and "\<And>ms. media p = Value ms \<Longrightarrow> None \<notin> set ms"
    and "page_rows p \<noteq> [] \<longrightarrow> upsert_batch (db st) (page_rows p) = Inr tbl"
    and "time_sleep (sleep cfg) = None"
  shows "page_body cfg (Some p) st =
     Inr (st \<lparr> db := (if page_rows p = [] then db st else tbl),
               total_inserted := total_inserted st + int (length (page_rows p)),
               has_next := (case pageInfo p of None \<Rightarrow> Some False | Some info \<Rightarrow> hasNextPage info),
               page := page st + 1,
               slept := slept st @ [sleep cfg] \<rparr>)"
proof (cases "media p")
  case Missing
  with assms show ?thesis
    by (simp add: page_body_def page_rows_def Let_def)
next
  case Null
  with assms show ?thesis by simp
next
  case (Value ms)
  with assms(2) [of ms] have "build_rows [] ms = Inr (page_rows p)"
    by (simp add: build_rows_acc page_rows_def)
  with Value assms(3,4) show ?thesis
    by (simp add: page_body_def Let_def)
qed

lemma executemany_foldl:
  "list_all bindable rows \<Longrightarrow> executemany tbl rows = Inr (foldl upsert_row tbl rows)"
  by (induction rows arbitrary: tbl) auto

lemma executemany_overflow:
  "\<not> list_all bindable rows \<Longrightarrow> executemany tbl rows = Inl OverflowError"
  by (induction rows arbitrary: tbl) auto

lemma page_body_processable:
  assumes "processable p" and "time_sleep (sleep cfg) = None"
  shows "page_body cfg (Some p) (st \<lparr> fetched := fetched st @ [(page st, Inr (Some p))] \<rparr>) =
     Inr (after_page cfg p st)"
proof -
  let ?st = "st \<lparr> fetched := fetched st @ [(page st, Inr (Some p))] \<rparr>"
  from assms(1) have 1: "media p \<noteq> Null"
    by (auto simp: processable_def)
  from assms(1) have 2: "None \<notin> set ms" if "media p = Value ms" for ms
    using that by (auto simp: processable_def list_all_iff)
  from assms(1) have "list_all bindable (page_rows p)"
    by (cases "media p") (simp_all add: processable_def page_rows_def)
  then have 3: "page_rows p \<noteq> [] \<longrightarrow>
      upsert_batch (db ?st) (page_rows p) = Inr (foldl upsert_row (db st) (page_rows p))"
    by (simp add: upsert_batch_def executemany_foldl)
  have "(if page_rows p = [] then db ?st else foldl upsert_row (db st) (page_rows p))
      = foldl upsert_row (db st) (page_rows p)"
    by simp
  with page_body_ok [OF 1 2 3 assms(2)] show ?thesis
    by (simp add: after_page_def)
qed

lemma main_loop_ok_page:
  assumes "has_next st = Some True" and "page st \<le> pages cfg"
    and "net (length (fetched st)) (page st) (per_page cfg) = ok_response p"
    and "processable p" and "time_sleep (sleep cfg) = None"
  shows "main_loop (Suc n) net cfg st = main_loop n net cfg (after_page cfg p st)"
proof -
  from assms(3) have "fetch_page (net (length (fetched st))) (page st) (per_page cfg) = Inr (Some p)"
    by (rule fetch_page_simps)
  with assms(1,2) have "main_loop (Suc n) net cfg st =
     (case page_body cfg (Some p) (st \<lparr> fetched := fetched st @ [(page st, Inr (Some p))] \<rparr>) of
        Inl (e, st') \<Rightarrow> Some (Aborted e st')
      | Inr st' \<Rightarrow> main_loop n net cfg st')"
    by (rule main_loop_page)
  then show ?thesis
    by (simp add: page_body_processable [OF assms(4,5)])
qed

lemma after_retries_Suc:
  "after_retries status (Suc k) st =
     after_retries (\<lambda>j. status (Suc j)) k
       (st \<lparr> fetched := fetched st @ [(page st, Inl (HTTPError (Some (status 0))))],
             slept := slept st @ [of_int (wait_for (Some (status 0)))] \<rparr>)"
proof -
  have "[0..<Suc k] = 0 # map Suc [0..<k]"
    by (simp add: upt_conv_Cons map_Suc_upt del: upt_Suc)
  then show ?thesis
    by (simp add: after_retries_def comp_def del: upt_Suc)
qed

lemma main_loop_retries:
  assumes "has_next st = Some True" and "page st \<le> pages cfg"
    and "\<And>j. j < k \<Longrightarrow>
      \<exists>b. net (length (fetched st) + j) (page st) (per_page cfg) = HttpResponse (status j) b
        \<and> 400 \<le> status j \<and> status j < 600"
  shows "main_loop (k + n) net cfg st = main_loop n net cfg (after_retries status k st)"
  using assms
proof (induction k arbitrary: st status)
  case 0
  then show ?case by (simp add: after_retries_def)
next
  case (Suc k)
  let ?st1 = "st \<lparr> fetched := fetched st @ [(page st, Inl (HTTPError (Some (status 0))))],
             slept := slept st @ [of_int (wait_for (Some (status 0)))] \<rparr>"
  from Suc.prems(3) [of 0] obtain b where
    "net (length (fetched st)) (page st) (per_page cfg) = HttpResponse (status 0) b"
    "400 \<le> status 0" "status 0 < 600"
    by auto
  then have "fetch_page (net (length (fetched st))) (page st) (per_page cfg)
      = Inl (HTTPError (Some (status 0)))"
    by (rule fetch_page_simps)
  with Suc.prems(1,2) have step: "main_loop (Suc (k + n)) net cfg st = main_loop (k + n) net cfg ?st1"
    by (rule main_loop_retry)
  have "\<exists>b. net (length (fetched ?st1) + j) (page ?st1) (per_page cfg)
         = HttpResponse (status (Suc j)) b \<and> 400 \<le> status (Suc j) \<and> status (Suc j) < 600"
    if "j < k" for j
    using Suc.prems(3) [of "Suc j"] that by simp
  with Suc.IH [of ?st1 "\<lambda>j. status (Suc j)"] Suc.prems(1,2)
  have "main_loop (k + n) net cfg ?st1
      = main_loop n net cfg (after_retries (\<lambda>j. status (Suc j)) k ?st1)"
    by simp
  with step show ?case
    by (simp add: after_retries_Suc)
qed

subsection \<open>Failures of a fetch\<close>

text \<open>
  C1, as the code has it. \<open>main\<close> catches \<open>requests.HTTPError\<close> only. While the
  requests for a page are answered with a status from 400 to 599, the loop sleeps (5
  seconds after a 429, 3 after any other status) and asks for the same page again, however
  many times in a row, and the table, the total and the page number stay as they are.
  Every other failure ends the run: a refused connection (\<open>ConnectionError\<close>), a timeout
  (\<open>Timeout\<close>), a body with an \<open>errors\<close> list (\<open>RuntimeError\<close>, the specification's
  \<open>ProtocolError\<close>) and a row that cannot be stored (\<open>OverflowError\<close> from the binding,
  a \<open>StorageError\<close>).
\<close>

theorem main_loop_http_error_retried:
  assumes "has_next st = Some True" and "page st \<le> pages cfg"
  shows
    "(\<forall>k status.
        (\<forall>j<k. \<exists>b. net (length (fetched st) + j) (page st) (per_page cfg) = HttpResponse (status j) b
                   \<and> 400 \<le> status j \<and> status j < 600) \<longrightarrow>
        main_loop (k + n) net cfg st =
          main_loop n net cfg
            (st \<lparr> fetched := fetched st @ map (\<lambda>j. (page st, Inl (HTTPError (Some (status j))))) [0..<k],
                  slept := slept st @ map (\<lambda>j. of_int (wait_for (Some (status j)))) [0..<k] \<rparr>)) \<and>
     (net (length (fetched st)) (page st) (per_page cfg) = ConnectionFailed \<longrightarrow>
        main_loop (Suc n) net cfg st =
          Some (Aborted ConnectionError (st \<lparr> fetched := fetched st @ [(page st, Inl ConnectionError)] \<rparr>))) \<and>
     (net (length (fetched st)) (page st) (per_page cfg) = TimedOut \<longrightarrow>
        main_loop (Suc n) net cfg st =
          Some (Aborted Timeout (st \<lparr> fetched := fetched st @ [(page st, Inl Timeout)] \<rparr>))) \<and>
     (\<forall>s d. net (length (fetched st)) (page st) (per_page cfg) = HttpResponse s (Json True d)
              \<and> \<not> (400 \<le> s \<and> s < 600) \<longrightarrow>
        main_loop (Suc n) net cfg st =
          Some (Aborted RuntimeError (st \<lparr> fetched := fetched st @ [(page st, Inl RuntimeError)] \<rparr>))) \<and>
     (\<forall>p ms. net (length (fetched st)) (page st) (per_page cfg) = ok_response p
              \<and> media p = Value ms \<and> None \<notin> set ms \<and> \<not> list_all bindable (page_rows p) \<longrightarrow>
        main_loop (Suc n) net cfg st =
          Some (Aborted OverflowError (st \<lparr> fetched := fetched st @ [(page st, Inr (Some p))] \<rparr>)))"
proof (intro conjI allI impI)
  fix k status
  assume "\<forall>j<k. \<exists>b. net (length (fetched st) + j) (page st) (per_page cfg) = HttpResponse (status j) b
                   \<and> 400 \<le> status j \<and> status j < 600"
  with assms have "main_loop (k + n) net cfg st = main_loop n net cfg (after_retries status k st)"
    by (intro main_loop_retries) auto
  then show "main_loop (k + n) net cfg st =
          main_loop n net cfg
            (st \<lparr> fetched := fetched st @ map (\<lambda>j. (page st, Inl (HTTPError (Some (status j))))) [0..<k],
                  slept := slept st @ map (\<lambda>j. of_int (wait_for (Some (status j)))) [0..<k] \<rparr>)"
    by (simp add: after_retries_def)
next
  assume "net (length (fetched st)) (page st) (per_page cfg) = ConnectionFailed"
  then have "fetch_page (net (length (fetched st))) (page st) (per_page cfg) = Inl ConnectionError"
    by (rule fetch_page_simps)
  with assms show "main_loop (Suc n) net cfg st =
          Some (Aborted ConnectionError (st \<lparr> fetched := fetched st @ [(page st, Inl ConnectionError)] \<rparr>))"
    by (intro main_loop_abort) auto
next
  assume "net (length (fetched st)) (page st) (per_page cfg) = TimedOut"
  then have "fetch_page (net (length (fetched st))) (page st) (per_page cfg) = Inl Timeout"
    by (rule fetch_page_simps)
  with assms show "main_loop (Suc n) net cfg st =
          Some (Aborted Timeout (st \<lparr> fetched := fetched st @ [(page st, Inl Timeout)] \<rparr>))"
    by (intro main_loop_abort) auto
next
  fix s d
  assume "net (length (fetched st)) (page st) (per_page cfg) = HttpResponse s (Json True d)
              \<and> \<not> (400 \<le> s \<and> s < 600)"
  then have "fetch_page (net (length (fetched st))) (page st) (per_page cfg) = Inl RuntimeError"
    by (intro fetch_page_simps(4)) auto
  with assms show "main_loop (Suc n) net cfg st =
          Some (Aborted RuntimeError (st \<lparr> fetched := fetched st @ [(page st, Inl RuntimeError)] \<rparr>))"
    by (intro main_loop_abort) auto
next
  fix p ms
  assume a: "net (length (fetched st)) (page st) (per_page cfg) = ok_response p
              \<and> media p = Value ms \<and> None \<notin> set ms \<and> \<not> list_all bindable (page_rows p)"
  let ?st = "st \<lparr> fetched := fetched st @ [(page st, Inr (Some p))] \<rparr>"
  from a have "fetch_page (net (length (fetched st))) (page st) (per_page cfg) = Inr (Some p)"
    by (intro fetch_page_simps(5)) auto
  with assms have "main_loop (Suc n) net cfg st =
     (case page_body cfg (Some p) ?st of
        Inl (e, st') \<Rightarrow> Some (Aborted e st')
      | Inr st' \<Rightarrow> main_loop n net cfg st')"
    by (rule main_loop_page)
  moreover from a have "build_rows [] ms = Inr (page_rows p)"
    by (simp add: build_rows_acc page_rows_def)
  moreover from a have "page_rows p \<noteq> []" by auto
  moreover from a have "upsert_batch (db ?st) (page_rows p) = Inl OverflowError"
    by (simp add: upsert_batch_def executemany_overflow)
  ultimately show "main_loop (Suc n) net cfg st =
          Some (Aborted OverflowError (st \<lparr> fetched := fetched st @ [(page st, Inr (Some p))] \<rparr>))"
    using a by (simp add: page_body_def)
qed

theorem main_loop_http_error_retried_witness:
  "has_next start = Some True \<and> page start \<le> pages default_config \<and>
   main_loop 3 flaky_net default_config start =
     Some (Aborted ConnectionError
       (start \<lparr> fetched := [(1, Inl (HTTPError (Some 429))), (1, Inl (HTTPError (Some 500))),
                             (1, Inl ConnectionError)],
                slept := [5, 3] \<rparr>))"
proof -
  have 1: "has_next start = Some True" "page start \<le> pages default_config"
    by (simp_all add: start_def default_config_def)
  let ?st2 = "start \<lparr> fetched := fetched start @ map (\<lambda>j. (page start, Inl (HTTPError (Some (flaky_status j))))) [0..<2],
                  slept := slept start @ map (\<lambda>j. of_int (wait_for (Some (flaky_status j)))) [0..<2] \<rparr>"
  have 2: "\<forall>j<2. \<exists>b. flaky_net (length (fetched start) + j) (page start) (per_page default_config)
                = HttpResponse (flaky_status j) b \<and> 400 \<le> flaky_status j \<and> flaky_status j < 600"
    by (simp add: flaky_net_def flaky_status_def start_def)
  from main_loop_http_error_retried [OF 1, of flaky_net 1]
  have "(\<forall>j<2. \<exists>b. flaky_net (length (fetched start) + j) (page start) (per_page default_config)
                = HttpResponse (flaky_status j) b \<and> 400 \<le> flaky_status j \<and> flaky_status j < 600) \<longrightarrow>
        main_loop (2 + 1) flaky_net default_config start = main_loop 1 flaky_net default_config ?st2"
    by blast
  with 2 have "main_loop (2 + 1) flaky_net default_config start = main_loop 1 flaky_net default_config ?st2"
    by blast
  moreover have "[0..<2] = [0, 1]"
    by (simp add: upt_conv_Cons)
  ultimately have "main_loop 3 flaky_net default_config start =
     Some (Aborted ConnectionError
       (start \<lparr> fetched := [(1, Inl (HTTPError (Some 429))), (1, Inl (HTTPError (Some 500))),
                             (1, Inl ConnectionError)],
                slept := [5, 3] \<rparr>))"
    by (simp add: start_def flaky_net_def flaky_status_def default_config_def wait_for_def
        fetch_page_def numeral_2_eq_2 numeral_3_eq_3 Let_def)
  with 1 show ?thesis by simp
qed

text \<open>
  C1, as the specification states it, fails: on a network where the first request times
  out, the run is over after that one request, with \<open>Timeout\<close>, and page 1 is not asked
  for again.
\<close>

theorem main_timeout_counterexample:
  "main 5 timeout_net default_config None =
     Some (Aborted Timeout
       \<lparr> db = [], total_inserted = 0, has_next = Some True, page = 1,
         fetched = [(1, Inl Timeout)], slept = [] \<rparr>)"
  by (simp add: main_def ensure_schema_def timeout_net_def default_config_def fetch_page_def
      numeral_eq_Suc Let_def)

subsection \<open>The example inputs\<close>

lemma time_sleep_examples:
  "time_sleep (sleep default_config) = None" "time_sleep (sleep three_pages) = None"
  by (simp_all add: time_sleep_def default_config_def three_pages_def)

lemma time_sleep_half [simp]: "time_sleep (1 / 2) = None"
  by (simp add: time_sleep_def)

lemma time_sleep_None_iff: "time_sleep secs = None \<longleftrightarrow> 0 \<le> secs \<and> secs * 10 ^ 9 < 2 ^ 63 - 512"
  by (auto simp: time_sleep_def)

lemma map_item_mapper_example: "map_item mapper_example = Some example_row"
  by (simp add: mapper_example_def map_item_def tag_names_def studio_names_def names_def
      json_dumps_def json_dumps_str_def json_escape_def dquote_def backslash_def
      clean_description_def example_row_def)

lemma map_item_no_id_item: "map_item no_id_item = None"
  by (simp add: map_item_def no_id_item_def)

lemma bindable_example_row: "bindable example_row"
  by (simp add: bindable_def sqlite_int_def example_row_def)

lemma page_rows_examples: "page_rows page_one = [example_row]" "page_rows page_two = [example_row]"
  by (simp_all add: page_rows_def page_one_def page_two_def map_item_mapper_example
      map_item_no_id_item)

lemma processable_examples: "processable page_one" "processable page_two"
proof -
  have "media page_one = Value [Some mapper_example]"
    by (simp add: page_one_def)
  then show "processable page_one"
    by (simp add: processable_def page_rows_examples bindable_example_row)
  have "media page_two = Value [Some no_id_item, Some mapper_example]"
    by (simp add: page_two_def)
  then show "processable page_two"
    by (simp add: processable_def page_rows_examples bindable_example_row)
qed

lemma continuation_examples: "continuation page_one" "\<not> continuation page_two"
  by (simp_all add: continuation_def page_one_def page_two_def)

subsection \<open>Going to the next page\<close>

lemma after_page_simps:
  "page (after_page cfg p st) = page st + 1"
  "has_next (after_page cfg p st) = Some True \<longleftrightarrow> continuation p"
  "fetched (after_page cfg p st) = fetched st @ [(page st, Inr (Some p))]"
  "slept (after_page cfg p st) = slept st @ [sleep cfg]"
  "total_inserted (after_page cfg p st) = total_inserted st + int (length (page_rows p))"
  "db (after_page cfg p st) = foldl upsert_row (db st) (page_rows p)"
  by (simp_all add: after_page_def continuation_def split: option.splits)



subsection \<open>Backoff\<close>

lemma foldl_upsert_row_last_write_wins:
  assumes "distinct (map row_id tbl)" and "list_all bindable rows"
  shows "distinct (map row_id (foldl upsert_row tbl rows))"
    and "filter (\<lambda>x. row_id x = i) (foldl upsert_row tbl rows) =
        (case find (\<lambda>r. row_id r = i) (rev rows) of
           None \<Rightarrow> filter (\<lambda>x. row_id x = i) tbl
         | Some r \<Rightarrow> [r])"
proof -
  from assms(2) have "\<forall>r \<in> set rows. bindable r"
    by (simp add: list_all_iff)
  with assms(1) obtain tbl' where "executemany tbl rows = Inr tbl'" "distinct (map row_id tbl')"
    and sel: "\<And>i. filter (\<lambda>x. row_id x = i) tbl' =
        (case find (\<lambda>r. row_id r = i) (rev rows) of
           None \<Rightarrow> filter (\<lambda>x. row_id x = i) tbl
         | Some r \<Rightarrow> [r])"
    using executemany_last_write_wins by blast
  moreover from assms(2) have "executemany tbl rows = Inr (foldl upsert_row tbl rows)"
    by (rule executemany_foldl)
  ultimately have eq: "tbl' = foldl upsert_row tbl rows" by simp
  with \<open>distinct (map row_id tbl')\<close> show "distinct (map row_id (foldl upsert_row tbl rows))"
    by simp
  from sel [of i] eq show "filter (\<lambda>x. row_id x = i) (foldl upsert_row tbl rows) =
        (case find (\<lambda>r. row_id r = i) (rev rows) of
           None \<Rightarrow> filter (\<lambda>x. row_id x = i) tbl
         | Some r \<Rightarrow> [r])"
    by simp
qed

lemma foldl_upsert_row_one_row:
  assumes "distinct (map row_id tbl)" and "list_all bindable rows" and "r \<in> set rows"
  shows "length (filter (\<lambda>x. row_id x = row_id r) (foldl upsert_row tbl rows)) = 1"
proof -
  from assms(3) have "find (\<lambda>r'. row_id r' = row_id r) (rev rows) \<noteq> None"
    by (auto simp: find_None_iff)
  then obtain r' where "find (\<lambda>r'. row_id r' = row_id r) (rev rows) = Some r'"
    by blast
  with foldl_upsert_row_last_write_wins(2) [OF assms(1,2), of "row_id r"] show ?thesis
    by simp
qed

lemma processable_bindable: "processable p \<Longrightarrow> list_all bindable (page_rows p)"
  by (cases "media p") (simp_all add: processable_def page_rows_def)




subsection \<open>Items with no identifier\<close>

lemma map_item_None_iff: "map_item m = None \<longleftrightarrow> media_id m = None"
  by (simp add: map_item_def split: option.splits)

lemma map_item_no_id: "media_id m = None \<Longrightarrow> map_item m = None"
  by (simp add: map_item_def)

lemma map_item_id: "media_id m = Some i \<Longrightarrow> \<exists>r. map_item m = Some r \<and> row_id r = i"
  by (simp add: map_item_def)

lemma map_item_row_id: "map_item m = Some r \<Longrightarrow> media_id m = Some (row_id r)"
  by (auto simp: map_item_def split: option.splits)

lemma page_rows_Value:
  assumes "media p = Value ms" and "None \<notin> set ms"
  shows "page_rows p = map (\<lambda>m. the (map_item (the m))) (filter (\<lambda>m. media_id (the m) \<noteq> None) ms)"
proof -
  have "concat (map (\<lambda>m. case m of None \<Rightarrow> [] | Some m \<Rightarrow> (case map_item m of None \<Rightarrow> [] | Some r \<Rightarrow> [r])) ms)
      = map (\<lambda>m. the (map_item (the m))) (filter (\<lambda>m. media_id (the m) \<noteq> None) ms)"
    using assms(2)
  proof (induction ms)
    case Nil
    then show ?case by simp
  next
    case (Cons m ms)
    then obtain x where m: "m = Some x" by (cases m) auto
    show ?case
    proof (cases "media_id x")
      case None
      with Cons m show ?thesis
        by (simp add: map_item_no_id)
    next
      case (Some i)
      then obtain r where "map_item x = Some r"
        using map_item_id by blast
      with Cons m Some show ?thesis by simp
    qed
  qed
  with assms(1) show ?thesis
    by (simp add: page_rows_def)
qed

lemma length_page_rows: "int (length (page_rows p)) = int (id_count (Some p))"
proof -
  have "length (concat (map (\<lambda>m. case m of None \<Rightarrow> [] | Some m \<Rightarrow> (case map_item m of None \<Rightarrow> [] | Some r \<Rightarrow> [r])) ms))
      = length (filter (\<lambda>m. case m of None \<Rightarrow> False | Some m \<Rightarrow> media_id m \<noteq> None) ms)" for ms
  proof (induction ms)
    case Nil
    then show ?case by simp
  next
    case (Cons m ms)
    show ?case
    proof (cases m)
      case None
      with Cons show ?thesis by (simp del: not_None_eq)
    next
      case (Some x)
      show ?thesis
      proof (cases "media_id x")
        case None
        with Cons Some show ?thesis
          by (simp add: map_item_no_id del: not_None_eq)
      next
        case (Some i)
        then obtain r where "map_item x = Some r"
          using map_item_id by blast
        with Cons \<open>m = Some x\<close> Some show ?thesis by (simp del: not_None_eq)
      qed
    qed
  qed
  then show ?thesis
    by (cases "media p") (simp_all add: page_rows_def id_count_def del: not_None_eq)
qed

lemma page_body_InrD:
  assumes "page_body cfg pl st = Inr st'"
  shows "total_inserted st' = total_inserted st + int (id_count pl) \<and> fetched st' = fetched st"
proof -
  from assms obtain p where pl: "pl = Some p"
    by (cases pl) (auto simp: page_body_def)
  from assms pl have nn: "media p \<noteq> Null"
    by (auto simp: page_body_def)
  have ms: "None \<notin> set ms" if "media p = Value ms" for ms
  proof
    assume "None \<in> set ms"
    then have "build_rows [] ms = Inl AttributeError"
      by (intro build_rows_None) simp
    with assms pl that show False
      by (simp add: page_body_def)
  qed
  have rows: "(case media p of Missing \<Rightarrow> build_rows [] [] | Null \<Rightarrow> Inl TypeError
      | Value ms \<Rightarrow> build_rows [] ms) = Inr (page_rows p)"
    using nn ms by (cases "media p") (simp_all add: page_rows_def build_rows_acc)
  from assms pl rows have "total_inserted st' = total_inserted st + int (length (page_rows p))
      \<and> fetched st' = fetched st"
    by (auto simp: page_body_def Let_def split: if_splits sum.splits option.splits)
  then show ?thesis
    by (simp add: pl length_page_rows)
qed

lemma main_loop_total:
  "main_loop n net cfg st = Some (Done st') \<Longrightarrow>
     total_inserted st' - upsert_attempts (fetched st') = total_inserted st - upsert_attempts (fetched st)"
proof (induction n arbitrary: st)
  case 0
  then show ?case by simp
next
  case (Suc n)
  show ?case
  proof (cases "has_next st = Some True \<and> page st \<le> pages cfg")
    case False
    with Suc.prems have "st' = st" by auto
    then show ?thesis by simp
  next
    case True
    let ?r = "fetch_page (net (length (fetched st))) (page st) (per_page cfg)"
    let ?st = "st \<lparr> fetched := fetched st @ [(page st, ?r)] \<rparr>"
    show ?thesis
    proof (cases ?r)
      case (Inl e)
      show ?thesis
      proof (cases "\<exists>status. e = HTTPError status")
        case True
        then obtain status where e: "e = HTTPError status" ..
        let ?st1 = "st \<lparr> fetched := fetched st @ [(page st, Inl (HTTPError status))],
             slept := slept st @ [of_int (wait_for status)] \<rparr>"
        from \<open>has_next st = Some True \<and> page st \<le> pages cfg\<close> Inl e
        have "main_loop (Suc n) net cfg st = main_loop n net cfg ?st1"
          by (intro main_loop_retry) auto
        with Suc.prems have "main_loop n net cfg ?st1 = Some (Done st')" by simp
        from Suc.IH [OF this] show ?thesis
          by (simp add: upsert_attempts_def)
      next
        case False
        with \<open>has_next st = Some True \<and> page st \<le> pages cfg\<close> Inl
        have "main_loop (Suc n) net cfg st =
            Some (Aborted e (st \<lparr> fetched := fetched st @ [(page st, Inl e)] \<rparr>))"
          by (intro main_loop_abort) auto
        with Suc.prems show ?thesis by simp
      qed
    next
      case (Inr pl)
      let ?st1 = "st \<lparr> fetched := fetched st @ [(page st, Inr pl)] \<rparr>"
      from True Inr have step: "main_loop (Suc n) net cfg st =
         (case page_body cfg pl ?st1 of
            Inl (e, st') \<Rightarrow> Some (Aborted e st')
          | Inr st' \<Rightarrow> main_loop n net cfg st')"
        by (intro main_loop_page) auto
      show ?thesis
      proof (cases "page_body cfg pl ?st1")
        case (Inl a)
        with step Suc.prems show ?thesis
          by (cases a) simp
      next
        case (Inr st2)
        with step Suc.prems have "main_loop n net cfg st2 = Some (Done st')" by simp
        from Suc.IH [OF this] page_body_InrD [OF Inr] show ?thesis
          by (simp add: upsert_attempts_def)
      qed
    qed
  qed
qed

text \<open>
  On a page whose entries are all objects, an item with no identifier gives no row, and
  every item with an identifier gives its row: the batch that the loop builds is the list
  of the rows of the items that have an identifier, in their order, and this is the batch
  that is upserted. Afterwards the table has exactly one row for the identifier of each
  such item.
\<close>

lemma rows_of_items_with_id:
  assumes "media p = Value ms" and "None \<notin> set ms"
  shows
    "(\<forall>m. Some m \<in> set ms \<and> media_id m = None \<longrightarrow> map_item m = None) \<and>
     (\<forall>m i. Some m \<in> set ms \<and> media_id m = Some i \<longrightarrow>
        (\<exists>r. map_item m = Some r \<and> row_id r = i \<and> r \<in> set (page_rows p))) \<and>
     (\<forall>r \<in> set (page_rows p). \<exists>m. Some m \<in> set ms \<and> map_item m = Some r) \<and>
     page_rows p =
       map (\<lambda>m. the (map_item (the m))) (filter (\<lambda>m. media_id (the m) \<noteq> None) ms) \<and>
     build_rows [] ms = Inr (page_rows p) \<and>
     (list_all bindable (page_rows p) \<and> time_sleep (sleep cfg) = None \<longrightarrow>
        (\<exists>st'. page_body cfg (Some p) st = Inr st'
           \<and> upsert_batch (db st) (page_rows p) = Inr (db st')
           \<and> (distinct (map row_id (db st)) \<longrightarrow>
                (\<forall>m i. Some m \<in> set ms \<and> media_id m = Some i \<longrightarrow>
                   length (filter (\<lambda>x. row_id x = i) (db st')) = 1))))"
proof -
  have rows: "page_rows p =
       map (\<lambda>m. the (map_item (the m))) (filter (\<lambda>m. media_id (the m) \<noteq> None) ms)"
    using assms by (rule page_rows_Value)
  have mem: "\<exists>r. map_item m = Some r \<and> row_id r = i \<and> r \<in> set (page_rows p)"
    if "Some m \<in> set ms" "media_id m = Some i" for m i
  proof -
    from that(2) obtain r where r: "map_item m = Some r" "row_id r = i"
      using map_item_id by blast
    from that have "Some m \<in> set (filter (\<lambda>m. media_id (the m) \<noteq> None) ms)"
      by simp
    then have "the (map_item (the (Some m))) \<in> set (page_rows p)"
      unfolding rows set_map by (rule imageI)
    with r show ?thesis by simp
  qed
  have from_item: "\<exists>m. Some m \<in> set ms \<and> map_item m = Some r" if "r \<in> set (page_rows p)" for r
  proof -
    from that obtain x where x: "x \<in> set ms" "media_id (the x) \<noteq> None" "r = the (map_item (the x))"
      unfolding rows by auto
    with assms(2) obtain m where m: "x = Some m"
      by (cases x) auto
    with x(2) obtain i where "media_id m = Some i" by auto
    then obtain r' where "map_item m = Some r'"
      using map_item_id by blast
    with x m show ?thesis by auto
  qed
  have build: "build_rows [] ms = Inr (page_rows p)"
    using assms by (simp add: build_rows_acc page_rows_def)
  have body: "\<exists>st'. page_body cfg (Some p) st = Inr st'
           \<and> upsert_batch (db st) (page_rows p) = Inr (db st')
           \<and> (distinct (map row_id (db st)) \<longrightarrow>
                (\<forall>m i. Some m \<in> set ms \<and> media_id m = Some i \<longrightarrow>
                   length (filter (\<lambda>x. row_id x = i) (db st')) = 1))"
    if b: "list_all bindable (page_rows p)" and s: "time_sleep (sleep cfg) = None"
  proof -
    let ?tbl = "foldl upsert_row (db st) (page_rows p)"
    let ?st' = "st \<lparr> db := (if page_rows p = [] then db st else ?tbl),
               total_inserted := total_inserted st + int (length (page_rows p)),
               has_next := (case pageInfo p of None \<Rightarrow> Some False | Some info \<Rightarrow> hasNextPage info),
               page := page st + 1,
               slept := slept st @ [sleep cfg] \<rparr>"
    have up: "upsert_batch (db st) (page_rows p) = Inr ?tbl"
      using b by (simp add: upsert_batch_def executemany_foldl)
    from assms(1) have "media p \<noteq> Null" by simp
    moreover have "\<And>xs. media p = Value xs \<Longrightarrow> None \<notin> set xs"
      using assms by simp
    moreover have "page_rows p \<noteq> [] \<longrightarrow> upsert_batch (db st) (page_rows p) = Inr ?tbl"
      using up by simp
    ultimately have 1: "page_body cfg (Some p) st = Inr ?st'"
      using s by (rule page_body_ok)
    have 2: "db ?st' = ?tbl" by simp
    have 3: "length (filter (\<lambda>x. row_id x = i) ?tbl) = 1"
      if "distinct (map row_id (db st))" "Some m \<in> set ms" "media_id m = Some i" for m i
    proof -
      from mem [OF that(2,3)] obtain r where "row_id r = i" "r \<in> set (page_rows p)"
        by blast
      with foldl_upsert_row_one_row [OF that(1) b, of r] show ?thesis by simp
    qed
    have 4: "distinct (map row_id (db st)) \<longrightarrow>
        (\<forall>m i. Some m \<in> set ms \<and> media_id m = Some i \<longrightarrow>
           length (filter (\<lambda>x. row_id x = i) (db ?st')) = 1)"
      unfolding 2 using 3 by blast
    from 1 2 4 up show ?thesis
      by (intro exI [of _ ?st'] conjI) simp_all
  qed
  from rows mem from_item build body show ?thesis
    by (auto simp: map_item_no_id)
qed

text \<open>
  C8. The specification asks that on every page an item with no identifier be dropped and
  every other item still be mapped and upserted. The comprehensions over the tags and the
  studios skip a null entry (\<open>if t and t.get("name")\<close>); the loop over \<open>media\<close> does
  not: on the page whose entries are the item with the identifier 5 and a null,
  \<open>m.get\<close> raises \<open>AttributeError\<close> on the null, and the run ends with nothing
  upserted, the item 5 included.
\<close>

theorem null_entry_aborts:
  "names tag_name [Some \<lparr> tag_name = Some ''A'' \<rparr>, None] = [''A''] \<and>
   map_item mapper_example = Some example_row \<and>
   build_rows [] [Some mapper_example, None] = Inl AttributeError \<and>
   main 5 null_entry_net default_config None =
     Some (Aborted AttributeError
       \<lparr> db = [], total_inserted = 0, has_next = Some True, page = 1,
         fetched = [(1, Inr (Some null_entry_page))], slept = [] \<rparr>)"
proof -
  have 1: "build_rows [] [Some mapper_example, None] = Inl AttributeError"
    by (simp add: map_item_mapper_example)
  have 2: "media null_entry_page = Value [Some mapper_example, None]"
    by (simp add: null_entry_page_def)
  define s0 where "s0 = \<lparr> db = ensure_schema None, total_inserted = 0, has_next = Some True, page = 1,
         fetched = [], slept = [] \<rparr>"
  have "fetch_page (null_entry_net (length (fetched s0))) (page s0) (per_page default_config)
      = Inr (Some null_entry_page)"
    by (intro fetch_page_simps) (simp add: null_entry_net_def)
  then have "main_loop (Suc 4) null_entry_net default_config s0 =
     (case page_body default_config (Some null_entry_page)
        (s0 \<lparr> fetched := fetched s0 @ [(page s0, Inr (Some null_entry_page))] \<rparr>) of
        Inl (e, st') \<Rightarrow> Some (Aborted e st')
      | Inr st' \<Rightarrow> main_loop 4 null_entry_net default_config st')"
    by (intro main_loop_page) (simp_all add: s0_def default_config_def)
  with 1 2 have "main 5 null_entry_net default_config None =
     Some (Aborted AttributeError
       \<lparr> db = [], total_inserted = 0, has_next = Some True, page = 1,
         fetched = [(1, Inr (Some null_entry_page))], slept = [] \<rparr>)"
    by (simp add: main_def s0_def page_body_def ensure_schema_def numeral_eq_Suc)
  with 1 show ?thesis
    by (simp add: map_item_mapper_example names_def)
qed

subsection \<open>The reported total\<close>

text \<open>
  C10. When the run is \<open>Done\<close>, the total is the sum, over the fetched pages, of the
  number of items with an identifier: it counts upsert attempts. It can exceed the number
  of rows of the table: when the pages 1 and 2 both hold the item with the identifier 5,
  the total is 2 and the table has one row.
\<close>

theorem total_inserted_counts_attempts:
  "(main n net cfg t = Some (Done st) \<longrightarrow> total_inserted st = upsert_attempts (fetched st)) \<and>
   (\<exists>st'. main 3 repeat_net default_config None = Some (Done st')
      \<and> map fst (fetched st') = [1, 2] \<and> total_inserted st' = 2 \<and> db st' = [example_row])"
proof
  show "main n net cfg t = Some (Done st) \<longrightarrow> total_inserted st = upsert_attempts (fetched st)"
  proof
    assume "main n net cfg t = Some (Done st)"
    then have "total_inserted st - upsert_attempts (fetched st) = 0 - upsert_attempts []"
      unfolding main_def by (auto dest!: main_loop_total)
    then show "total_inserted st = upsert_attempts (fetched st)"
      by (simp add: upsert_attempts_def)
  qed
next
  define s0 where "s0 = \<lparr> db = ensure_schema None, total_inserted = 0, has_next = Some True, page = 1,
         fetched = [], slept = [] \<rparr>"
  define s1 where "s1 = after_page default_config page_one s0"
  define s2 where "s2 = after_page default_config page_two s1"
  have c: "time_sleep (sleep default_config) = None" "pages default_config = 10"
    by (simp_all add: default_config_def)
  have f1: "fetched s1 = [(1, Inr (Some page_one))]" "page s1 = 2" "has_next s1 = Some True"
    "total_inserted s1 = 1" "db s1 = [example_row]"
    by (simp_all add: s1_def s0_def after_page_simps continuation_examples page_rows_examples
        ensure_schema_def upsert_row_def)
  have f2: "fetched s2 = [(1, Inr (Some page_one)), (2, Inr (Some page_two))]"
    "has_next s2 \<noteq> Some True" "total_inserted s2 = 2" "db s2 = [example_row]"
    using f1 by (simp_all add: s2_def after_page_simps continuation_examples page_rows_examples
        upsert_row_def)
  have "main_loop (Suc (Suc (Suc 0))) repeat_net default_config s0
      = main_loop (Suc (Suc 0)) repeat_net default_config s1"
    unfolding s1_def using c
    by (intro main_loop_ok_page) (simp_all add: s0_def repeat_net_def processable_examples)
  also have "\<dots> = main_loop (Suc 0) repeat_net default_config s2"
    unfolding s2_def using c f1
    by (intro main_loop_ok_page) (simp_all add: repeat_net_def processable_examples)
  also have "\<dots> = Some (Done s2)"
    using f2 by (intro main_loop_done) simp
  finally have "main 3 repeat_net default_config None = Some (Done s2)"
    by (simp add: main_def s0_def numeral_eq_Suc)
  with f2 show "\<exists>st'. main 3 repeat_net default_config None = Some (Done st')
      \<and> map fst (fetched st') = [1, 2] \<and> total_inserted st' = 2 \<and> db st' = [example_row]"
    by simp
qed

theorem total_inserted_counts_attempts_witness:
  "\<exists>st. main 3 repeat_net default_config None = Some (Done st)
      \<and> total_inserted st = upsert_attempts (fetched st)
      \<and> total_inserted st = 2 \<and> length (db st) = 1"
proof -
  obtain st where st: "main 3 repeat_net default_config None = Some (Done st)"
    "total_inserted st = 2" "db st = [example_row]"
    using total_inserted_counts_attempts by blast
  from total_inserted_counts_attempts [of 3 repeat_net default_config None st] st(1)
  have "total_inserted st = upsert_attempts (fetched st)"
    by blast
  with st show ?thesis by auto
qed

end
